theory Spec2Isabelle
  imports Complex_Main "HOL-Library.Word" "HOL-Library.Log_Nat"
begin

section \<open>JavaScript numbers\<close>

text \<open>
  A JavaScript \<^verbatim>\<open>number\<close> is an IEEE 754 binary64 value. The finite ones are
  rationals, so a number is modelled as a \<^typ>\<open>rat\<close> and every arithmetic operation of the
  source is the exact operation followed by \<open>fl\<close>, rounding to the nearest value with a
  53-bit significand, ties to the even significand. The exponent is not bounded here:
  overflow to infinity and subnormal results are not modelled, which is exact for
  magnitudes between \<open>2 ^ -1022\<close> and \<open>2 ^ 1024\<close>; all values the luminance mapper computes
  are 0 or lie between \<open>0.07\<close> and \<open>2300\<close>. \<open>None\<close> stands for \<^verbatim>\<open>NaN\<close> where the
  source can produce it (the remainder by zero).
\<close>

definition pow2 :: "int \<Rightarrow> rat" where
  "pow2 k = (if 0 \<le> k then 2 ^ nat k else 1 / 2 ^ nat (- k))"

text \<open>Rounding to the nearest integer, ties to even.\<close>

definition rne :: "rat \<Rightarrow> int" where
  "rne x = (let f = \<lfloor>x\<rfloor>; d = x - of_int f
            in if d < 1 / 2 then f
               else if 1 / 2 < d then f + 1
               else if even f then f else f + 1)"

text \<open>
  The exponent of the unit in the last place: for \<open>x \<noteq> 0\<close> the \<open>e\<close> with
  \<open>2 ^ 52 \<le> |x| / 2 ^ e < 2 ^ 53\<close>, computed from the bit lengths of numerator and denominator.
\<close>

definition ulp_exp :: "rat \<Rightarrow> int" where
  "ulp_exp x = (let p = fst (quotient_of \<bar>x\<bar>); q = snd (quotient_of \<bar>x\<bar>);
                    k = bitlen p - bitlen q
                in (if pow2 k \<le> \<bar>x\<bar> then k else k - 1) - 52)"

definition fl :: "rat \<Rightarrow> rat" where
  "fl x = (if x = 0 then 0 else of_int (rne (x / pow2 (ulp_exp x))) * pow2 (ulp_exp x))"

text \<open>
  \<^verbatim>\<open>Math.round\<close> is exact: the nearest integer, a tie going towards \<open>+\<infinity>\<close>.
\<close>

definition Math_round :: "rat \<Rightarrow> int" where
  "Math_round x = \<lfloor>x + 1 / 2\<rfloor>"

definition Math_max :: "int \<Rightarrow> int \<Rightarrow> int" where
  "Math_max a b = (if a < b then b else a)"

text \<open>
  The remainder operator \<^verbatim>\<open>%\<close> on integral numbers: the result has the sign of the
  dividend, and the remainder by zero is \<^verbatim>\<open>NaN\<close>.
\<close>

definition js_rem :: "int \<Rightarrow> int \<Rightarrow> int option" where
  "js_rem a b = (if b = 0 then None else Some (sgn a * (\<bar>a\<bar> mod \<bar>b\<bar>)))"

section \<open>Luminance mapper (\<^verbatim>\<open>src/App.tsx\<close>, lines 4 to 11 and 41 to 47)\<close>

definition ASCII_CHARS :: string where
  "ASCII_CHARS = ''@%#*+=-:. ''"

definition DEFAULT_WIDTH :: int where
  "DEFAULT_WIDTH = 80"

text \<open>
  \<^verbatim>\<open>return 0.2126 * r + 0.7152 * g + 0.0722 * b;\<close>
  Each decimal literal denotes the binary64 value nearest to it; the sum associates to the
  left.
\<close>

definition rgbToLum :: "rat \<Rightarrow> rat \<Rightarrow> rat \<Rightarrow> rat" where
  "rgbToLum r g b =
     fl (fl (fl (fl (2126 / 10000) * r) + fl (fl (7152 / 10000) * g)) + fl (fl (722 / 10000) * b))"

text \<open>
  \<^verbatim>\<open>ASCII_CHARS[idx]\<close>: indexing a string out of range gives \<^verbatim>\<open>undefined\<close>, and
  \<^verbatim>\<open>row += undefined\<close> appends the nine characters of the word.
\<close>

definition char_at :: "string \<Rightarrow> int \<Rightarrow> string" where
  "char_at s i = (if 0 \<le> i \<and> i < int (length s) then [s ! nat i] else ''undefined'')"

text \<open>
  Lines 44 and 45: \<^verbatim>\<open>lum = rgbToLum(r, g, b) / 255\<close> and
  \<^verbatim>\<open>idx = Math.round(lum * (ASCII_CHARS.length - 1))\<close>, as a function of the value
  \<^verbatim>\<open>rgbToLum\<close> returned.
\<close>

definition lum_index :: "rat \<Rightarrow> int" where
  "lum_index l =
     (let lum = fl (l / 255)
      in Math_round (fl (lum * of_int (int (length ASCII_CHARS) - 1))))"

text \<open>
  The body of the inner loop, lines 36 to 47, for the pixel that starts at byte \<open>i\<close> of a
  \<^verbatim>\<open>Uint8ClampedArray\<close>: the text appended to \<^verbatim>\<open>row\<close>.
\<close>

definition pixel_char :: "8 word list \<Rightarrow> nat \<Rightarrow> int \<Rightarrow> string" where
  "pixel_char d i alphaThreshold =
     (let r = d ! i; g = d ! (i + 1); b = d ! (i + 2); a = d ! (i + 3)
      in if uint a < alphaThreshold then '' ''
         else char_at ASCII_CHARS
                (lum_index (rgbToLum (of_nat (unat r)) (of_nat (unat g)) (of_nat (unat b)))))"

section \<open>Grid resampler (\<^verbatim>\<open>imageDataToAscii\<close>, lines 13 to 52)\<close>

datatype dom_error = IndexSizeError | InvalidStateError | TypeError | RangeError

text \<open>
  An \<^verbatim>\<open>ImageData\<close>: RGBA bytes, row-major, four per pixel. The platform only hands out
  objects with \<open>0 < width\<close>, \<open>0 < height\<close> and \<open>length data = 4 * width * height\<close>.
\<close>

record ImageData =
  data :: "8 word list"
  width :: nat
  height :: nat

type_synonym rgba = "8 word \<times> 8 word \<times> 8 word \<times> 8 word"

definition transparent :: rgba where
  "transparent = (0, 0, 0, 0)"

text \<open>
  What the source leaves to the browser, as parameters of the model:
  \<^item> \<open>scaled_byte img tw th i\<close> is byte \<open>i\<close> of what \<^verbatim>\<open>getImageData(0, 0, tw, th)\<close> returns
    after lines 19 to 29 drew the image scaled to \<open>tw \<times> th\<close>; the filter is the browser's
    choice;
  \<^item> \<open>out_of_memory w h\<close> holds when the browser cannot provide an image of \<open>w \<times> h\<close>
    pixels, in which case \<^verbatim>\<open>getImageData\<close> throws \<^verbatim>\<open>RangeError\<close>;
  \<^item> \<open>premultiplied p\<close> is what a canvas gives back for a pixel \<open>p\<close> written with an alpha
    strictly between 0 and 255, where the premultiplied storage loses precision.
\<close>

record platform =
  scaled_byte :: "ImageData \<Rightarrow> int \<Rightarrow> int \<Rightarrow> nat \<Rightarrow> 8 word"
  out_of_memory :: "nat \<Rightarrow> nat \<Rightarrow> bool"
  premultiplied :: "rgba \<Rightarrow> rgba"

text \<open>
  The arguments of \<^verbatim>\<open>getImageData\<close> are declared \<^verbatim>\<open>[EnforceRange] long\<close>: a value
  outside the 32-bit signed range throws \<^verbatim>\<open>TypeError\<close>.
\<close>

definition in_long :: "int \<Rightarrow> bool" where
  "in_long n = (- (2 ^ 31) \<le> n \<and> n < 2 ^ 31)"

text \<open>
  Lines 19 to 30, up to the result of \<^verbatim>\<open>ctx.getImageData(0, 0, targetWidth, targetHeight)\<close>.
  What the standard fixes is kept: the range check of the arguments, \<^verbatim>\<open>IndexSizeError\<close>
  when the requested width or height is zero, and an image of \<open>|tw| \<times> |th|\<close> pixels
  otherwise.
\<close>

definition getImageData_scaled :: "platform \<Rightarrow> ImageData \<Rightarrow> int \<Rightarrow> int \<Rightarrow> dom_error + ImageData" where
  "getImageData_scaled pf img tw th =
     (if \<not> in_long tw \<or> \<not> in_long th then Inl TypeError
      else if tw = 0 \<or> th = 0 then Inl IndexSizeError
      else if out_of_memory pf (nat \<bar>tw\<bar>) (nat \<bar>th\<bar>) then Inl RangeError
      else Inr \<lparr>data = map (scaled_byte pf img tw th) [0..<4 * (nat \<bar>tw\<bar> * nat \<bar>th\<bar>)],
                width = nat \<bar>tw\<bar>, height = nat \<bar>th\<bar>\<rparr>)"

text \<open>
  Lines 15 to 17: \<^verbatim>\<open>ratio = h / w\<close> and
  \<^verbatim>\<open>targetHeight = Math.max(1, Math.round(ratio * targetWidth * 0.5))\<close>.
\<close>

definition targetHeight :: "nat \<Rightarrow> nat \<Rightarrow> int \<Rightarrow> int" where
  "targetHeight w h targetWidth =
     (let ratio = fl (of_nat h / of_nat w)
      in Math_max 1 (Math_round (fl (fl (ratio * of_int targetWidth) * (1 / 2)))))"

text \<open>Lines 32 to 51: the two loops over the resized image.\<close>

definition ascii_row :: "ImageData \<Rightarrow> int \<Rightarrow> nat \<Rightarrow> string" where
  "ascii_row resized alphaThreshold y =
     concat (map (\<lambda>x. pixel_char (data resized) ((y * width resized + x) * 4) alphaThreshold)
                 [0..<width resized])"

definition ascii_lines :: "ImageData \<Rightarrow> int \<Rightarrow> string list" where
  "ascii_lines resized alphaThreshold =
     map (ascii_row resized alphaThreshold) [0..<height resized]"

definition imageDataToAscii :: "platform \<Rightarrow> ImageData \<Rightarrow> int \<Rightarrow> int \<Rightarrow> dom_error + string list" where
  "imageDataToAscii pf imgData w_out alphaThreshold =
     (let targetWidth = w_out;
          th = targetHeight (width imgData) (height imgData) targetWidth
      in case getImageData_scaled pf imgData targetWidth th of
           Inl e \<Rightarrow> Inl e
         | Inr resized \<Rightarrow> Inr (ascii_lines resized alphaThreshold))"

section \<open>Frame compositor (\<^verbatim>\<open>decodeGifFromBytes\<close>, lines 84 to 126)\<close>

text \<open>
  The logical canvas: its size and one RGBA quadruple per position. Positions outside
  \<open>c_width \<times> c_height\<close> are not part of the canvas; no operation below writes them and
  \<open>getImageData\<close> reads them as transparent black. The bitmap holds what
  \<^verbatim>\<open>getImageData\<close> reads back.
\<close>

record canvas =
  c_width :: nat
  c_height :: nat
  bitmap :: "nat \<times> nat \<Rightarrow> rgba"

definition createCanvas :: "nat \<Rightarrow> nat \<Rightarrow> canvas" where
  "createCanvas w h = \<lparr>c_width = w, c_height = h, bitmap = (\<lambda>_. transparent)\<rparr>"

definition in_rect :: "nat \<Rightarrow> nat \<Rightarrow> nat \<Rightarrow> nat \<Rightarrow> nat \<times> nat \<Rightarrow> bool" where
  "in_rect x y w h p = (x \<le> fst p \<and> fst p < x + w \<and> y \<le> snd p \<and> snd p < y + h)"

definition on_canvas :: "canvas \<Rightarrow> nat \<times> nat \<Rightarrow> bool" where
  "on_canvas c p = (fst p < c_width c \<and> snd p < c_height c)"

text \<open>\<^verbatim>\<open>ctx.clearRect(x, y, w, h)\<close>: the rectangle becomes transparent black.\<close>

definition clearRect :: "canvas \<Rightarrow> nat \<Rightarrow> nat \<Rightarrow> nat \<Rightarrow> nat \<Rightarrow> canvas" where
  "clearRect c x y w h =
     c\<lparr>bitmap := (\<lambda>p. if on_canvas c p \<and> in_rect x y w h p then transparent else bitmap c p)\<rparr>"

definition image_pixel :: "ImageData \<Rightarrow> nat \<Rightarrow> nat \<Rightarrow> rgba" where
  "image_pixel img x y =
     (let i = (y * width img + x) * 4
      in (data img ! i, data img ! (i + 1), data img ! (i + 2), data img ! (i + 3)))"

text \<open>
  The canvas stores colours premultiplied by alpha: an opaque pixel is kept as written, a
  pixel written with alpha 0 reads back as transparent black, and any other pixel as the
  browser rounds it.
\<close>

definition canvas_pixel :: "platform \<Rightarrow> rgba \<Rightarrow> rgba" where
  "canvas_pixel pf p =
     (case p of (r, g, b, a) \<Rightarrow>
        if a = 255 then p else if a = 0 then transparent else premultiplied pf p)"

text \<open>
  \<^verbatim>\<open>ctx.putImageData(imageData, dx, dy)\<close>: the pixels of the image replace those of the
  canvas, without blending; what falls outside the canvas is dropped.
\<close>

definition putImageData :: "platform \<Rightarrow> canvas \<Rightarrow> ImageData \<Rightarrow> nat \<Rightarrow> nat \<Rightarrow> canvas" where
  "putImageData pf c img dx dy =
     c\<lparr>bitmap := (\<lambda>p. if on_canvas c p \<and> in_rect dx dy (width img) (height img) p
                       then canvas_pixel pf (image_pixel img (fst p - dx) (snd p - dy))
                       else bitmap c p)\<rparr>"

definition rgba_bytes :: "rgba \<Rightarrow> 8 word list" where
  "rgba_bytes p = (case p of (r, g, b, a) \<Rightarrow> [r, g, b, a])"

text \<open>
  \<^verbatim>\<open>ctx.getImageData(sx, sy, sw, sh)\<close> for non-negative arguments: throws when an
  argument is outside the 32-bit range, when a side is zero, or when the image cannot be
  allocated; otherwise copies the rectangle row by row.
\<close>

definition getImageData :: "platform \<Rightarrow> canvas \<Rightarrow> nat \<Rightarrow> nat \<Rightarrow> nat \<Rightarrow> nat \<Rightarrow> dom_error + ImageData" where
  "getImageData pf c sx sy sw sh =
     (if \<not> in_long (int sx) \<or> \<not> in_long (int sy) \<or> \<not> in_long (int sw) \<or> \<not> in_long (int sh)
      then Inl TypeError
      else if sw = 0 \<or> sh = 0 then Inl IndexSizeError
      else if out_of_memory pf sw sh then Inl RangeError
      else Inr \<lparr>data = concat (map (\<lambda>i. rgba_bytes
                                  (let p = (sx + i mod sw, sy + i div sw)
                                   in if on_canvas c p then bitmap c p else transparent))
                                [0..<sw * sh]),
                width = sw, height = sh\<rparr>)"

text \<open>
  \<^verbatim>\<open>new ImageData(array, sw, sh)\<close> as the HTML standard defines it: \<open>sw\<close> and \<open>sh\<close>
  are \<^verbatim>\<open>unsigned long\<close> and taken modulo \<open>2 ^ 32\<close>; the length of the array must be a
  non-zero multiple of 4, the number of pixels a multiple of \<open>sw\<close>, and the number of rows
  equal to \<open>sh\<close>.
\<close>

definition new_ImageData :: "8 word list \<Rightarrow> nat \<Rightarrow> nat \<Rightarrow> dom_error + ImageData" where
  "new_ImageData d sw_arg sh_arg =
     (let sw = nat (int sw_arg mod 2 ^ 32); sh = nat (int sh_arg mod 2 ^ 32)
      in if length d = 0 \<or> length d mod 4 \<noteq> 0 then Inl InvalidStateError
         else if sw = 0 \<or> (length d div 4) mod sw \<noteq> 0 then Inl IndexSizeError
         else if (length d div 4) div sw \<noteq> sh then Inl IndexSizeError
         else Inr \<lparr>data = d, width = sw, height = sh\<rparr>)"

text \<open>
  A frame of \<^verbatim>\<open>decompressFrames(gif, true)\<close>: the RGBA patch, its rectangle, and the
  disposal method of the graphic control extension.
\<close>

record dims =
  dims_left :: nat
  dims_top :: nat
  dims_width :: nat
  dims_height :: nat

record frame =
  patch :: "8 word list option"
  dims :: dims
  disposalType :: nat

text \<open>
  Lines 103 to 107. The offsets of \<^verbatim>\<open>putImageData\<close> are \<^verbatim>\<open>[EnforceRange] long\<close>.
\<close>

definition draw_patch :: "platform \<Rightarrow> canvas \<Rightarrow> frame \<Rightarrow> dom_error + canvas" where
  "draw_patch pf c f =
     (case patch f of
        None \<Rightarrow> Inr c
      | Some p \<Rightarrow>
          (case new_ImageData p (dims_width (dims f)) (dims_height (dims f)) of
             Inl e \<Rightarrow> Inl e
           | Inr imageData \<Rightarrow>
               if \<not> in_long (int (dims_left (dims f))) \<or> \<not> in_long (int (dims_top (dims f)))
               then Inl TypeError
               else Inr (putImageData pf c imageData (dims_left (dims f)) (dims_top (dims f)))))"

text \<open>Lines 115 to 122.\<close>

definition applyDisposal :: "canvas \<Rightarrow> frame \<Rightarrow> canvas" where
  "applyDisposal c f =
     (if disposalType f = 2
      then clearRect c (dims_left (dims f)) (dims_top (dims f)) (dims_width (dims f)) (dims_height (dims f))
      else if disposalType f = 3
      then clearRect c (dims_left (dims f)) (dims_top (dims f)) (dims_width (dims f)) (dims_height (dims f))
      else c)"

text \<open>
  What the loop reads: the browser, the state variables \<^verbatim>\<open>width\<close> and
  \<^verbatim>\<open>alphaThreshold\<close>, and the logical screen size.
\<close>

record config =
  browser :: platform
  out_width :: int
  alpha_threshold :: int
  logicalWidth :: nat
  logicalHeight :: nat

text \<open>
  One iteration of the loop, lines 100 to 123: the grid pushed to \<^verbatim>\<open>asciiFrames\<close> and
  the canvas left for the next frame. An exception of the platform ends the function.
\<close>

definition frame_step :: "config \<Rightarrow> canvas \<Rightarrow> frame \<Rightarrow> dom_error + (string list \<times> canvas)" where
  "frame_step cfg c f =
     (case draw_patch (browser cfg) c f of
        Inl e \<Rightarrow> Inl e
      | Inr c1 \<Rightarrow>
          (case getImageData (browser cfg) c1 0 0 (logicalWidth cfg) (logicalHeight cfg) of
             Inl e \<Rightarrow> Inl e
           | Inr full \<Rightarrow>
               (case imageDataToAscii (browser cfg) full (out_width cfg) (alpha_threshold cfg) of
                  Inl e \<Rightarrow> Inl e
                | Inr ascii \<Rightarrow> Inr (ascii, applyDisposal c1 f))))"

text \<open>
  The loop over \<^verbatim>\<open>decompressed\<close>, lines 100 to 123, with its two variables: the canvas
  and \<^verbatim>\<open>asciiFrames\<close>. It returns both as they are after the last frame.
\<close>

fun frames_loop :: "config \<Rightarrow> canvas \<Rightarrow> string list list \<Rightarrow> frame list
                    \<Rightarrow> dom_error + (string list list \<times> canvas)" where
  "frames_loop cfg c asciiFrames [] = Inr (asciiFrames, c)"
| "frames_loop cfg c asciiFrames (f # fs) =
     (case frame_step cfg c f of
        Inl e \<Rightarrow> Inl e
      | Inr (ascii, c') \<Rightarrow> frames_loop cfg c' (asciiFrames @ [ascii]) fs)"

section \<open>The component state and its handlers (\<^verbatim>\<open>App\<close>, lines 54 to 229)\<close>

text \<open>
  The state variables of \<^verbatim>\<open>useState\<close>. \<open>frames = None\<close> is \<^verbatim>\<open>null\<close>, and
  \<open>index = None\<close> is \<^verbatim>\<open>NaN\<close>.
\<close>

record app_state =
  frames :: "string list list option"
  width_st :: int
  fps :: int
  playing :: bool
  index :: "int option"
  alphaThreshold :: int

definition App_init :: app_state where
  "App_init = \<lparr>frames = None, width_st = DEFAULT_WIDTH, fps = 12, playing = False,
                index = Some 0, alphaThreshold = 16\<rparr>"

text \<open>
  What \<^verbatim>\<open>parseGIF\<close> and \<^verbatim>\<open>decompressFrames\<close> of gifuct-js return: the logical
  screen descriptor and the frames.
\<close>

record gif =
  lsd_width :: nat
  lsd_height :: nat
  decompressed :: "frame list"

definition decodeGifFromBytes :: "platform \<Rightarrow> app_state \<Rightarrow> gif \<Rightarrow> dom_error + app_state" where
  "decodeGifFromBytes sc st g =
     (let lw = lsd_width g; lh = lsd_height g;
          c = clearRect (createCanvas lw lh) 0 0 lw lh;
          cfg = \<lparr>browser = sc, out_width = width_st st, alpha_threshold = alphaThreshold st,
                 logicalWidth = lw, logicalHeight = lh\<rparr>
      in case frames_loop cfg c [] (decompressed g) of
           Inl e \<Rightarrow> Inl e
         | Inr (asciiFrames, _) \<Rightarrow> Inr (st\<lparr>frames := Some asciiFrames, index := Some 0\<rparr>))"

text \<open>
  Line 70, the callback of the interval timer, which closes over a non-null
  \<^verbatim>\<open>frames\<close>; the timer exists only while \<^verbatim>\<open>frames\<close> is set and \<^verbatim>\<open>playing\<close> holds
  (lines 66 to 71).
\<close>

definition advance :: "string list list \<Rightarrow> int option \<Rightarrow> int option" where
  "advance fs i = (case i of None \<Rightarrow> None | Some n \<Rightarrow> js_rem (n + 1) (int (length fs)))"

definition timer_tick :: "app_state \<Rightarrow> app_state" where
  "timer_tick st =
     (case frames st of
        None \<Rightarrow> st
      | Some fs \<Rightarrow> if playing st then st\<lparr>index := advance fs (index st)\<rparr> else st)"

text \<open>Lines 208 to 211: the four transport buttons.\<close>

definition onClick_prev :: "app_state \<Rightarrow> app_state" where
  "onClick_prev st =
     st\<lparr>index := (case frames st of
                    None \<Rightarrow> index st
                  | Some fs \<Rightarrow>
                      (case index st of
                         None \<Rightarrow> None
                       | Some i \<Rightarrow> js_rem (i - 1 + int (length fs)) (int (length fs))))\<rparr>"

definition onClick_next :: "app_state \<Rightarrow> app_state" where
  "onClick_next st =
     st\<lparr>index := (case frames st of None \<Rightarrow> index st | Some fs \<Rightarrow> advance fs (index st))\<rparr>"

definition onClick_play :: "app_state \<Rightarrow> app_state" where
  "onClick_play st = st\<lparr>playing := True\<rparr>"

definition onClick_stop :: "app_state \<Rightarrow> app_state" where
  "onClick_stop st = st\<lparr>playing := False\<rparr>"

text \<open>
  Line 188, \<^verbatim>\<open>setWidth(parseInt(e.target.value) || DEFAULT_WIDTH)\<close>: the argument is
  the result of \<^verbatim>\<open>parseInt\<close>, \<open>None\<close> for \<^verbatim>\<open>NaN\<close>; both \<^verbatim>\<open>NaN\<close> and 0 are falsy.
\<close>

definition onChange_width :: "app_state \<Rightarrow> int option \<Rightarrow> app_state" where
  "onChange_width st v =
     st\<lparr>width_st := (case v of None \<Rightarrow> DEFAULT_WIDTH
                               | Some n \<Rightarrow> if n = 0 then DEFAULT_WIDTH else n)\<rparr>"

section \<open>Inputs of the decoder and example values\<close>

text \<open>
  A frame as gifuct-js builds it: the four numbers of the rectangle are 16-bit fields of
  the image descriptor, and the patch holds four bytes for each pixel of a rectangle
  that is not empty.
\<close>

definition well_formed_frame :: "frame \<Rightarrow> bool" where
  "well_formed_frame f =
     (dims_left (dims f) < 2 ^ 16 \<and> dims_top (dims f) < 2 ^ 16
      \<and> dims_width (dims f) < 2 ^ 16 \<and> dims_height (dims f) < 2 ^ 16
      \<and> (case patch f of
            None \<Rightarrow> True
          | Some p \<Rightarrow> 0 < dims_width (dims f) \<and> 0 < dims_height (dims f)
                      \<and> length p = 4 * (dims_width (dims f) * dims_height (dims f))))"

text \<open>
  The preconditions under which every platform call of a step succeeds: the logical screen
  and the character grid are not empty, all sizes are in the 32-bit range, and the browser
  can allocate both images.
\<close>

definition render_ok :: "config \<Rightarrow> bool" where
  "render_ok cfg =
     (0 < logicalWidth cfg \<and> int (logicalWidth cfg) < 2 ^ 31
      \<and> 0 < logicalHeight cfg \<and> int (logicalHeight cfg) < 2 ^ 31
      \<and> \<not> out_of_memory (browser cfg) (logicalWidth cfg) (logicalHeight cfg)
      \<and> out_width cfg \<noteq> 0 \<and> in_long (out_width cfg)
      \<and> targetHeight (logicalWidth cfg) (logicalHeight cfg) (out_width cfg) < 2 ^ 31
      \<and> \<not> out_of_memory (browser cfg) (nat \<bar>out_width cfg\<bar>)
            (nat (targetHeight (logicalWidth cfg) (logicalHeight cfg) (out_width cfg))))"

text \<open>
  A browser for the examples: its filter hands back the bytes of the source in order,
  which is the identity when the target has the size of the source; it never runs out of
  memory and keeps the pixels it is given.
\<close>

definition copy_scaler :: platform where
  "copy_scaler =
     \<lparr>scaled_byte = (\<lambda>img tw th i. if i < length (data img) then data img ! i else 0),
      out_of_memory = (\<lambda>w h. False),
      premultiplied = (\<lambda>p. p)\<rparr>"

text \<open>A one-pixel opaque black patch in the top row, at column \<open>x\<close>.\<close>

definition black_patch :: "nat \<Rightarrow> nat \<Rightarrow> frame" where
  "black_patch x disposal =
     \<lparr>patch = Some [0, 0, 0, 255],
      dims = \<lparr>dims_left = x, dims_top = 0, dims_width = 1, dims_height = 1\<rparr>,
      disposalType = disposal\<rparr>"

text \<open>A logical screen of two pixels by one, rendered two characters wide.\<close>

definition demo_config :: config where
  "demo_config = \<lparr>browser = copy_scaler, out_width = 2, alpha_threshold = 16,
                   logicalWidth = 2, logicalHeight = 1\<rparr>"

definition demo_gif :: gif where
  "demo_gif = \<lparr>lsd_width = 2, lsd_height = 1,
                decompressed = [black_patch 0 2, black_patch 1 1]\<rparr>"

text \<open>A transparent pixel followed by an opaque black one.\<close>

definition demo_image :: ImageData where
  "demo_image = \<lparr>data = [0, 0, 0, 0, 0, 0, 0, 255], width = 2, height = 1\<rparr>"

text \<open>
  The state of a component that shows an earlier animation of one frame and is playing,
  with an output width of two characters.
\<close>

definition demo_playing :: app_state where
  "demo_playing = App_init\<lparr>frames := Some [[''@@'']], width_st := 2, playing := True\<rparr>"

section \<open>The formulas as the specification words them\<close>

text \<open>
  Section 4.1 of the specification: relative luminance
  \<open>L = 0.2126 R + 0.7152 G + 0.0722 B\<close>, normalised by dividing by 255, mapped to the index
  \<open>round (L_normalized * (paletteLength - 1))\<close>, clamped into \<open>[0, paletteLength - 1]\<close>.
  Section 4.3: \<open>H = max (1, round ((sourceHeight / sourceWidth) * W * 0.5))\<close>. Both are
  taken as written, over the rationals, with \<open>round\<close> to the nearest integer and a tie
  going up.
\<close>

definition clamp_index :: "int \<Rightarrow> int \<Rightarrow> int \<Rightarrow> int" where
  "clamp_index lo hi i = (if i < lo then lo else if hi < i then hi else i)"

definition spec_luminance :: "rat \<Rightarrow> rat \<Rightarrow> rat \<Rightarrow> rat" where
  "spec_luminance R G B = 2126 / 10000 * R + 7152 / 10000 * G + 722 / 10000 * B"

definition spec_palette_index :: "8 word \<Rightarrow> 8 word \<Rightarrow> 8 word \<Rightarrow> int" where
  "spec_palette_index R G B =
     (let paletteLength = 10;
          L_normalized = spec_luminance (of_nat (unat R)) (of_nat (unat G)) (of_nat (unat B)) / 255
      in clamp_index 0 (paletteLength - 1) (Math_round (L_normalized * of_int (paletteLength - 1))))"

definition spec_targetHeight :: "nat \<Rightarrow> nat \<Rightarrow> int \<Rightarrow> int" where
  "spec_targetHeight sourceWidth sourceHeight W =
     max 1 (Math_round (of_nat sourceHeight / of_nat sourceWidth * of_int W * (1 / 2)))"

text \<open>
  A value lies on a tie when it is exactly half way between two integers. The relative
  error of one rounded operation is at most \<open>u53\<close>.
\<close>

definition on_tie :: "rat \<Rightarrow> bool" where
  "on_tie x = (of_int \<lfloor>x + 1 / 2\<rfloor> = x + 1 / 2)"

definition u53 :: rat where
  "u53 = 1 / 2 ^ 53"

section \<open>Properties of the rounding\<close>

lemma pow2_powi: "pow2 k = 2 powi k"
  by (simp add: pow2_def power_int_def field_simps)

lemma pow2_pos: "0 < pow2 k"
  by (simp add: pow2_powi zero_less_power_int)

lemma pow2_add: "pow2 (a + b) = pow2 a * pow2 b"
  by (simp add: pow2_powi power_int_add)

lemma pow2_mono: "a \<le> b \<Longrightarrow> pow2 a \<le> pow2 b"
  by (simp add: pow2_powi power_int_increasing)

lemma pow2_nat: "pow2 (int n) = 2 ^ n"
  by (simp add: pow2_def)

lemma rne_ge: "of_int n \<le> x \<Longrightarrow> n \<le> rne x"
proof -
  assume "of_int n \<le> x"
  then have "n \<le> \<lfloor>x\<rfloor>" by (simp add: le_floor_iff)
  then show ?thesis by (simp add: rne_def Let_def)
qed

lemma rne_le: "x \<le> of_int n \<Longrightarrow> rne x \<le> n"
proof -
  assume h: "x \<le> of_int n"
  show ?thesis
  proof (cases "x = of_int n")
    case True
    then show ?thesis by (simp add: rne_def Let_def)
  next
    case False
    with h have "x < of_int n" by simp
    then have "\<lfloor>x\<rfloor> < n" by (simp add: floor_less_iff)
    then show ?thesis by (simp add: rne_def Let_def)
  qed
qed

lemma rne_of_int: "rne (of_int n) = n"
  by (simp add: rne_def Let_def)

lemma rne_mono: "x \<le> y \<Longrightarrow> rne x \<le> rne y"
proof -
  assume h: "x \<le> y"
  then have fm: "\<lfloor>x\<rfloor> \<le> \<lfloor>y\<rfloor>" by (rule floor_mono)
  show ?thesis
  proof (cases "\<lfloor>x\<rfloor> = \<lfloor>y\<rfloor>")
    case True
    with h have "x - of_int \<lfloor>x\<rfloor> \<le> y - of_int \<lfloor>y\<rfloor>" by simp
    with True show ?thesis by (auto simp add: rne_def Let_def)
  next
    case False
    with fm have "\<lfloor>x\<rfloor> + 1 \<le> \<lfloor>y\<rfloor>" by simp
    moreover have "rne x \<le> \<lfloor>x\<rfloor> + 1" by (simp add: rne_def Let_def)
    moreover have "\<lfloor>y\<rfloor> \<le> rne y" by (simp add: rne_def Let_def)
    ultimately show ?thesis by linarith
  qed
qed

lemma ulp_exp_bounds:
  assumes "x \<noteq> 0"
  shows "pow2 (ulp_exp x + 52) \<le> \<bar>x\<bar> \<and> \<bar>x\<bar> < pow2 (ulp_exp x + 53)"
proof -
  obtain p q where pq: "quotient_of \<bar>x\<bar> = (p, q)" by (cases "quotient_of \<bar>x\<bar>")
  then have q: "0 < q" by (rule quotient_of_denom_pos)
  from pq have xe: "\<bar>x\<bar> = of_int p / of_int q" by (rule quotient_of_div)
  from assms have "0 < \<bar>x\<bar>" by simp
  with xe q have p: "0 < p" by (simp add: zero_less_divide_iff)
  define bp where "bp = bitlen p"
  define bq where "bq = bitlen q"
  from bitlen_bounds [OF p] have p1: "2 ^ nat (bp - 1) \<le> p" and p2: "p < 2 ^ nat bp"
    by (simp_all add: bp_def)
  from bitlen_bounds [OF q] have q1: "2 ^ nat (bq - 1) \<le> q" and q2: "q < 2 ^ nat bq"
    by (simp_all add: bq_def)
  have bp1: "1 \<le> bp" using p by (simp add: bp_def bitlen_alt_def)
  have bq1: "1 \<le> bq" using q by (simp add: bq_def bitlen_alt_def)
  have P1: "pow2 (bp - 1) \<le> of_int p"
  proof -
    have "(of_int (2 ^ nat (bp - 1)) :: rat) \<le> of_int p" using p1 by (simp only: of_int_le_iff)
    then show ?thesis using bp1 by (simp add: pow2_def)
  qed
  have P2: "of_int p < pow2 bp"
  proof -
    have "(of_int p :: rat) < of_int (2 ^ nat bp)" using p2 by (simp only: of_int_less_iff)
    then show ?thesis using bp1 by (simp add: pow2_def)
  qed
  have Q1: "pow2 (bq - 1) \<le> of_int q"
  proof -
    have "(of_int (2 ^ nat (bq - 1)) :: rat) \<le> of_int q" using q1 by (simp only: of_int_le_iff)
    then show ?thesis using bq1 by (simp add: pow2_def)
  qed
  have Q2: "of_int q < pow2 bq"
  proof -
    have "(of_int q :: rat) < of_int (2 ^ nat bq)" using q2 by (simp only: of_int_less_iff)
    then show ?thesis using bq1 by (simp add: pow2_def)
  qed
  have qpos: "(0::rat) < of_int q" using q by simp
  have lo: "pow2 (bp - bq - 1) < \<bar>x\<bar>"
  proof -
    have "pow2 (bp - bq - 1) * of_int q < pow2 (bp - bq - 1) * pow2 bq"
      using Q2 pow2_pos by simp
    also have "\<dots> = pow2 (bp - 1)" by (simp add: pow2_add [symmetric])
    also have "\<dots> \<le> of_int p" by (rule P1)
    finally show ?thesis using qpos by (simp add: xe pos_less_divide_eq)
  qed
  have hi: "\<bar>x\<bar> < pow2 (bp - bq + 1)"
  proof -
    have "of_int p < pow2 bp" by (rule P2)
    also have "\<dots> = pow2 (bp - bq + 1) * pow2 (bq - 1)" by (simp add: pow2_add [symmetric])
    also have "\<dots> \<le> pow2 (bp - bq + 1) * of_int q"
      using Q1 pow2_pos by simp
    finally show ?thesis using qpos by (simp add: xe pos_divide_less_eq)
  qed
  have ue: "ulp_exp x = (if pow2 (bp - bq) \<le> \<bar>x\<bar> then bp - bq else bp - bq - 1) - 52"
    by (simp add: ulp_exp_def Let_def pq bp_def bq_def)
  show ?thesis
  proof (cases "pow2 (bp - bq) \<le> \<bar>x\<bar>")
    case True
    with hi show ?thesis by (simp add: ue add.commute)
  next
    case False
    with lo show ?thesis by (simp add: ue)
  qed
qed

lemma fl_pos_bounds:
  assumes "0 < x"
  shows "pow2 (ulp_exp x + 52) \<le> fl x \<and> fl x \<le> pow2 (ulp_exp x + 53)"
proof -
  define e where "e = ulp_exp x"
  from assms ulp_exp_bounds [of x]
  have b: "pow2 (e + 52) \<le> x" "x < pow2 (e + 53)" by (simp_all add: e_def)
  have pe: "0 < pow2 e" by (rule pow2_pos)
  have "pow2 52 \<le> x / pow2 e" using b(1) pe by (simp add: pow2_add pos_le_divide_eq mult.commute)
  then have "(of_int (2 ^ 52) :: rat) \<le> x / pow2 e" by (simp add: pow2_def)
  then have l: "2 ^ 52 \<le> rne (x / pow2 e)" by (rule rne_ge)
  have "x / pow2 e \<le> pow2 53" using b(2) pe by (simp add: pow2_add pos_divide_le_eq mult.commute)
  then have "x / pow2 e \<le> (of_int (2 ^ 53) :: rat)" by (simp add: pow2_def)
  then have u: "rne (x / pow2 e) \<le> 2 ^ 53" by (rule rne_le)
  have fx: "fl x = of_int (rne (x / pow2 e)) * pow2 e" using assms by (simp add: fl_def e_def)
  have "(of_int (2 ^ 52) :: rat) \<le> of_int (rne (x / pow2 e))" using l by (simp only: of_int_le_iff)
  then have "pow2 52 * pow2 e \<le> fl x" using pe by (simp add: fx pow2_def)
  moreover have "(of_int (rne (x / pow2 e)) :: rat) \<le> of_int (2 ^ 53)" using u by (simp only: of_int_le_iff)
  then have "fl x \<le> pow2 53 * pow2 e" using pe by (simp add: fx pow2_def)
  ultimately show ?thesis by (simp add: pow2_add e_def mult.commute)
qed

lemma fl_mono_pos:
  assumes "0 < x" "x \<le> y"
  shows "fl x \<le> fl y"
proof -
  from assms have y: "0 < y" by simp
  from assms(1) ulp_exp_bounds [of x]
  have bx: "pow2 (ulp_exp x + 52) \<le> x" "x < pow2 (ulp_exp x + 53)" by simp_all
  from y ulp_exp_bounds [of y]
  have "by": "pow2 (ulp_exp y + 52) \<le> y" "y < pow2 (ulp_exp y + 53)" by simp_all
  have le: "ulp_exp x \<le> ulp_exp y"
  proof (rule ccontr)
    assume "\<not> ulp_exp x \<le> ulp_exp y"
    then have "ulp_exp y + 53 \<le> ulp_exp x + 52" by simp
    then have "pow2 (ulp_exp y + 53) \<le> pow2 (ulp_exp x + 52)" by (rule pow2_mono)
    with bx(1) "by"(2) assms(2) show False by simp
  qed
  show ?thesis
  proof (cases "ulp_exp x = ulp_exp y")
    case True
    have "x / pow2 (ulp_exp y) \<le> y / pow2 (ulp_exp y)"
      using assms(2) pow2_pos [of "ulp_exp y"] by (simp add: divide_right_mono)
    then have "rne (x / pow2 (ulp_exp y)) \<le> rne (y / pow2 (ulp_exp y))" by (rule rne_mono)
    then have "(of_int (rne (x / pow2 (ulp_exp y))) :: rat) \<le> of_int (rne (y / pow2 (ulp_exp y)))"
      by (simp only: of_int_le_iff)
    then show ?thesis using assms(1) y True pow2_pos [of "ulp_exp y"] by (simp add: fl_def)
  next
    case False
    with le have "ulp_exp x + 53 \<le> ulp_exp y + 52" by simp
    then have "pow2 (ulp_exp x + 53) \<le> pow2 (ulp_exp y + 52)" by (rule pow2_mono)
    with fl_pos_bounds [OF assms(1)] fl_pos_bounds [OF y] show ?thesis by simp
  qed
qed

lemma fl_zero: "fl 0 = 0"
  by (simp add: fl_def)

lemma fl_nonneg: "0 \<le> x \<Longrightarrow> 0 \<le> fl x"
proof (cases "x = 0")
  case True
  then show ?thesis by (simp add: fl_def)
next
  case False
  assume "0 \<le> x"
  with False have p: "0 < x" by simp
  have "0 < pow2 (ulp_exp x + 52)" by (rule pow2_pos)
  with fl_pos_bounds [OF p] show ?thesis by simp
qed

lemma fl_mono: "0 \<le> x \<Longrightarrow> x \<le> y \<Longrightarrow> fl x \<le> fl y"
proof (cases "x = 0")
  case True
  assume "0 \<le> x" "x \<le> y"
  then have "0 \<le> fl y" using fl_nonneg [of y] by simp
  with True show ?thesis by (simp add: fl_zero)
next
  case False
  assume "0 \<le> x" "x \<le> y"
  with False show ?thesis by (simp add: fl_mono_pos)
qed


lemma Math_round_mono: "x \<le> y \<Longrightarrow> Math_round x \<le> Math_round y"
  by (simp add: Math_round_def floor_mono)

lemma Math_round_nonneg: "0 \<le> x \<Longrightarrow> 0 \<le> Math_round x"
  by (simp add: Math_round_def)

lemma lum_index_mono:
  assumes "0 \<le> l1" "l1 \<le> l2"
  shows "lum_index l1 \<le> lum_index l2"
proof -
  have a: "fl (l1 / 255) \<le> fl (l2 / 255)"
    using assms by (intro fl_mono) (simp_all add: divide_right_mono)
  have n: "0 \<le> fl (l1 / 255)" using assms(1) by (intro fl_nonneg) simp
  have "fl (fl (l1 / 255) * 9) \<le> fl (fl (l2 / 255) * 9)"
    using a n by (intro fl_mono) simp_all
  then show ?thesis
    by (simp add: lum_index_def ASCII_CHARS_def Math_round_mono)
qed

lemma lum_index_nonneg:
  assumes "0 \<le> l"
  shows "0 \<le> lum_index l"
proof -
  have n: "0 \<le> fl (l / 255)" using assms by (intro fl_nonneg) simp
  have "0 \<le> fl (fl (l / 255) * 9)" using n by (intro fl_nonneg) simp
  then show ?thesis
    by (simp add: lum_index_def ASCII_CHARS_def Math_round_nonneg)
qed

lemma rgbToLum_nonneg:
  assumes "0 \<le> r" "0 \<le> g" "0 \<le> b"
  shows "0 \<le> rgbToLum r g b"
proof -
  have c: "0 \<le> fl (2126 / 10000)" "0 \<le> fl (7152 / 10000)" "0 \<le> fl (722 / 10000)"
    by (simp_all add: fl_nonneg)
  have p: "0 \<le> fl (fl (2126 / 10000) * r)" "0 \<le> fl (fl (7152 / 10000) * g)"
          "0 \<le> fl (fl (722 / 10000) * b)"
    using c assms by (simp_all add: fl_nonneg)
  then have "0 \<le> fl (fl (fl (2126 / 10000) * r) + fl (fl (7152 / 10000) * g))"
    by (intro fl_nonneg) simp
  with p(3) show ?thesis unfolding rgbToLum_def by (intro fl_nonneg) simp
qed

lemma rgbToLum_mono:
  assumes "0 \<le> r" "r \<le> r'" "0 \<le> g" "g \<le> g'" "0 \<le> b" "b \<le> b'"
  shows "rgbToLum r g b \<le> rgbToLum r' g' b'"
proof -
  have c: "0 \<le> fl (2126 / 10000)" "0 \<le> fl (7152 / 10000)" "0 \<le> fl (722 / 10000)"
    by (simp_all add: fl_nonneg)
  have pr: "fl (fl (2126 / 10000) * r) \<le> fl (fl (2126 / 10000) * r')"
    using c(1) assms(1,2) by (intro fl_mono) (simp_all add: mult_left_mono)
  have pg: "fl (fl (7152 / 10000) * g) \<le> fl (fl (7152 / 10000) * g')"
    using c(2) assms(3,4) by (intro fl_mono) (simp_all add: mult_left_mono)
  have pb: "fl (fl (722 / 10000) * b) \<le> fl (fl (722 / 10000) * b')"
    using c(3) assms(5,6) by (intro fl_mono) (simp_all add: mult_left_mono)
  have n: "0 \<le> fl (fl (2126 / 10000) * r)" "0 \<le> fl (fl (7152 / 10000) * g)"
          "0 \<le> fl (fl (722 / 10000) * b)"
    using c assms by (simp_all add: fl_nonneg)
  have s: "fl (fl (fl (2126 / 10000) * r) + fl (fl (7152 / 10000) * g))
           \<le> fl (fl (fl (2126 / 10000) * r') + fl (fl (7152 / 10000) * g'))"
    using pr pg n by (intro fl_mono) simp_all
  have sn: "0 \<le> fl (fl (fl (2126 / 10000) * r) + fl (fl (7152 / 10000) * g))"
    using n by (intro fl_nonneg) simp
  show ?thesis unfolding rgbToLum_def
    using s pb sn n(3) by (intro fl_mono) simp_all
qed

lemma lum_index_white: "lum_index (rgbToLum 255 255 255) = 9"
  by code_simp

lemma byte_le_255: "(of_nat (unat (w :: 8 word)) :: rat) \<le> 255"
proof -
  have "unat w < 2 ^ 8" using unsigned_less [of w] by simp
  then have "unat w \<le> 255" by simp
  then have "(of_nat (unat w) :: rat) \<le> of_nat 255" by (simp only: of_nat_le_iff)
  then show ?thesis by simp
qed

lemma pixel_index_bounds:
  fixes r g b :: "8 word"
  defines "i \<equiv> lum_index (rgbToLum (of_nat (unat r)) (of_nat (unat g)) (of_nat (unat b)))"
  shows "0 \<le> i \<and> i \<le> 9"
proof -
  have n: "0 \<le> rgbToLum (of_nat (unat r)) (of_nat (unat g)) (of_nat (unat b))"
    by (intro rgbToLum_nonneg of_nat_0_le_iff)
  have "rgbToLum (of_nat (unat r)) (of_nat (unat g)) (of_nat (unat b)) \<le> rgbToLum 255 255 255"
    by (intro rgbToLum_mono of_nat_0_le_iff byte_le_255)
  with n have "i \<le> lum_index (rgbToLum 255 255 255)"
    unfolding i_def by (rule lum_index_mono)
  moreover have "0 \<le> i" unfolding i_def using n by (rule lum_index_nonneg)
  ultimately show ?thesis by (simp add: lum_index_white)
qed

section \<open>The error of the rounded operations\<close>

lemma rne_err: "\<bar>of_int (rne x) - x\<bar> \<le> 1 / 2"
proof -
  define f where "f = \<lfloor>x\<rfloor>"
  define d where "d = x - of_int f"
  have d0: "0 \<le> d" and d1: "d < 1"
    unfolding d_def f_def by linarith+
  have x: "x = of_int f + d" by (simp add: d_def)
  consider "d < 1 / 2" | "1 / 2 < d" | "d = 1 / 2" by linarith
  then show ?thesis
  proof cases
    case 1
    then have "rne x = f" by (simp add: rne_def Let_def f_def d_def)
    with 1 d0 show ?thesis by (simp add: x)
  next
    case 2
    then have "rne x = f + 1" by (simp add: rne_def Let_def f_def d_def)
    with 2 d1 show ?thesis by (simp add: x)
  next
    case 3
    then have "rne x = f \<or> rne x = f + 1" by (simp add: rne_def Let_def f_def d_def)
    with 3 show ?thesis by (auto simp add: x)
  qed
qed

lemma fl_abs_err:
  assumes "0 < x"
  shows "\<bar>fl x - x\<bar> \<le> x * u53"
proof -
  define e where "e = ulp_exp x"
  have pe: "0 < pow2 e" by (rule pow2_pos)
  from assms ulp_exp_bounds [of x] have b: "pow2 (e + 52) \<le> x" by (simp add: e_def)
  have fx: "fl x = of_int (rne (x / pow2 e)) * pow2 e" using assms by (simp add: fl_def e_def)
  have "fl x - x = (of_int (rne (x / pow2 e)) - x / pow2 e) * pow2 e"
    using pe by (simp add: fx field_simps)
  then have "\<bar>fl x - x\<bar> = \<bar>of_int (rne (x / pow2 e)) - x / pow2 e\<bar> * pow2 e"
    using pe by (simp add: abs_mult)
  also have "\<dots> \<le> (1 / 2) * pow2 e"
    using rne_err [of "x / pow2 e"] pe by (intro mult_right_mono) simp_all
  also have "\<dots> = pow2 (e + 52) * u53"
  proof -
    have "pow2 52 * u53 = 1 / 2" by (simp add: pow2_def u53_def)
    then have "pow2 e * (pow2 52 * u53) = (1 / 2) * pow2 e" by simp
    then show ?thesis by (simp only: pow2_add mult.assoc)
  qed
  also have "\<dots> \<le> x * u53"
    using b by (intro mult_right_mono) (simp_all add: u53_def)
  finally show ?thesis .
qed

lemma fl_between:
  assumes "0 \<le> a" and "0 \<le> lo" and "a * lo \<le> x" and "x \<le> a * hi"
  shows "a * (lo * (1 - u53)) \<le> fl x \<and> fl x \<le> a * (hi * (1 + u53))"
proof -
  have x0: "0 \<le> x" using assms(1,2,3) by (meson mult_nonneg_nonneg order_trans)
  have u: "0 \<le> 1 - u53" "0 \<le> 1 + u53" "0 \<le> u53" by (simp_all add: u53_def)
  show ?thesis
  proof (cases "x = 0")
    case True
    have "a * lo = 0" using assms(1,2,3) True
      by (metis mult_nonneg_nonneg order_antisym)
    moreover have "0 \<le> a * hi" using assms(4) True by simp
    then have "0 \<le> a * hi * (1 + u53)" using u(2) by (rule mult_nonneg_nonneg)
    moreover have "a * (lo * (1 - u53)) = a * lo * (1 - u53)" by simp
    ultimately show ?thesis using True by (simp only: fl_zero mult_zero_left mult.assoc) simp
  next
    case False
    with x0 have xp: "0 < x" by simp
    from fl_abs_err [OF xp] have l: "x * (1 - u53) \<le> fl x" and h: "fl x \<le> x * (1 + u53)"
      by (simp_all add: abs_le_iff algebra_simps)
    have "a * lo * (1 - u53) \<le> x * (1 - u53)"
      using assms(3) u(1) by (rule mult_right_mono)
    with l have L: "a * (lo * (1 - u53)) \<le> fl x" by (simp add: mult.assoc)
    have "x * (1 + u53) \<le> a * hi * (1 + u53)"
      using assms(4) u(2) by (rule mult_right_mono)
    with h have H: "fl x \<le> a * (hi * (1 + u53))" by (simp add: mult.assoc)
    from L H show ?thesis ..
  qed
qed

lemma Math_round_close:
  assumes D: "0 < D" and xv: "x + 1 / 2 = of_int A / of_int D"
    and err: "\<bar>x' - x\<bar> < 1 / of_int D"
  shows "Math_round x - 1 \<le> Math_round x' \<and> Math_round x' \<le> Math_round x
         \<and> (\<not> on_tie x \<longrightarrow> Math_round x' = Math_round x)"
proof -
  define m where "m = A div D"
  define r where "r = A mod D"
  have Dr: "(0::rat) < of_int D" using D by simp
  have r0: "0 \<le> r" and r1: "r < D" using D by (simp_all add: r_def)
  have A: "A = m * D + r" by (simp add: m_def r_def)
  have xm: "x + 1 / 2 = of_int m + of_int r / of_int D"
    using Dr by (simp add: xv A field_simps)
  have rq: "0 \<le> of_int r / (of_int D :: rat)" using r0 Dr by simp
  have rq1: "of_int r / (of_int D :: rat) \<le> 1 - 1 / of_int D"
  proof -
    have "r \<le> D - 1" using r1 by simp
    then have "(of_int r :: rat) \<le> of_int (D - 1)" by (simp only: of_int_le_iff)
    then have "of_int r / (of_int D :: rat) \<le> of_int (D - 1) / of_int D"
      using Dr by (simp add: divide_right_mono)
    also have "\<dots> = 1 - 1 / of_int D" using Dr by (simp add: field_simps)
    finally show ?thesis .
  qed
  have dp: "0 < 1 / (of_int D :: rat)" using Dr by simp
  have mr: "Math_round x = m"
  proof -
    have "of_int m \<le> x + 1 / 2" using xm rq by linarith
    moreover have "x + 1 / 2 < of_int m + 1" using xm rq1 dp by linarith
    ultimately show ?thesis unfolding Math_round_def by (rule floor_unique)
  qed
  have e1: "x' < x + 1 / of_int D" and e2: "x - 1 / of_int D < x'"
    using err by (simp_all add: abs_less_iff algebra_simps)
  have dle: "1 / (of_int D :: rat) \<le> 1"
  proof -
    have "(1::rat) \<le> of_int D" using D by (simp add: of_int_1_le_iff)
    then show ?thesis using Dr by (simp add: field_simps)
  qed
  have up: "Math_round x' \<le> m"
  proof -
    have "x' + 1 / 2 < of_int m + of_int r / of_int D + 1 / of_int D"
      using e1 xm by linarith
    also have "\<dots> \<le> of_int m + 1" using rq1 by linarith
    finally have "x' + 1 / 2 < of_int (m + 1)" by simp
    then have "\<lfloor>x' + 1 / 2\<rfloor> < m + 1" by (simp only: floor_less_iff)
    then show ?thesis by (simp add: Math_round_def)
  qed
  have lo: "m - 1 \<le> Math_round x'"
  proof -
    have "of_int m - 1 \<le> of_int m + of_int r / of_int D - 1 / (of_int D :: rat)"
      using rq dle by linarith
    also have "\<dots> < x' + 1 / 2" using e2 xm by linarith
    finally have "of_int (m - 1) \<le> x' + 1 / 2" by simp
    then have "m - 1 \<le> \<lfloor>x' + 1 / 2\<rfloor>" by (simp only: le_floor_iff)
    then show ?thesis by (simp add: Math_round_def)
  qed
  have eq: "Math_round x' = m" if "r \<noteq> 0"
  proof -
    from that r0 have "1 \<le> r" by simp
    then have "(of_int 1 :: rat) \<le> of_int r" by (simp only: of_int_le_iff)
    then have "1 / (of_int D :: rat) \<le> of_int r / of_int D"
      using Dr by (simp add: divide_right_mono)
    then have "of_int m \<le> of_int m + of_int r / of_int D - 1 / (of_int D :: rat)" by linarith
    also have "\<dots> < x' + 1 / 2" using e2 xm by linarith
    finally have "of_int m \<le> x' + 1 / 2" by simp
    then have "m \<le> \<lfloor>x' + 1 / 2\<rfloor>" by (simp only: le_floor_iff)
    with up show ?thesis by (simp add: Math_round_def)
  qed
  have "r \<noteq> 0" if "\<not> on_tie x"
  proof
    assume "r = 0"
    with xm have "x + 1 / 2 = of_int m" by simp
    then have "on_tie x" by (simp add: on_tie_def)
    with that show False by simp
  qed
  with mr up lo eq show ?thesis by auto
qed

lemma u53_range: "0 \<le> u53" "0 \<le> 1 - u53" "1 - u53 \<le> 1" "1 \<le> 1 + u53"
  by (simp_all add: u53_def)

lemma lo_pow_le: "(1 - u53) ^ Suc n \<le> (1 - u53) ^ n"
  using u53_range by (intro power_decreasing) simp_all

lemma hi_pow_le: "(1 + u53) ^ n \<le> (1 + u53) ^ Suc n"
  using u53_range by (intro power_increasing) simp_all

lemma fl_between_pow:
  assumes "0 \<le> a" and "a * (1 - u53) ^ n \<le> x" and "x \<le> a * (1 + u53) ^ n"
  shows "a * (1 - u53) ^ Suc n \<le> fl x \<and> fl x \<le> a * (1 + u53) ^ Suc n"
proof -
  have "0 \<le> (1 - u53) ^ n" using u53_range by simp
  from fl_between [OF assms(1) this assms(2,3)] show ?thesis by (simp add: mult.commute)
qed

lemma fl_const_mult:
  assumes "0 \<le> k" and "0 \<le> X"
  shows "k * X * (1 - u53) ^ 2 \<le> fl (fl k * X) \<and> fl (fl k * X) \<le> k * X * (1 + u53) ^ 2"
proof -
  have c: "k * (1 - u53) ^ Suc 0 \<le> fl k \<and> fl k \<le> k * (1 + u53) ^ Suc 0"
    using assms(1) by (intro fl_between_pow) simp_all
  have a: "0 \<le> k * X" using assms by simp
  have l: "k * X * (1 - u53) ^ Suc 0 \<le> fl k * X"
  proof -
    have "k * (1 - u53) ^ Suc 0 * X \<le> fl k * X" using c assms(2) by (intro mult_right_mono) simp_all
    then show ?thesis by (simp add: mult.commute mult.left_commute)
  qed
  have h: "fl k * X \<le> k * X * (1 + u53) ^ Suc 0"
  proof -
    have "fl k * X \<le> k * (1 + u53) ^ Suc 0 * X" using c assms(2) by (intro mult_right_mono) simp_all
    then show ?thesis by (simp add: mult.commute mult.left_commute)
  qed
  from fl_between_pow [OF a l h] show ?thesis by (simp add: numeral_2_eq_2)
qed

lemma rgbToLum_between:
  assumes "0 \<le> R" and "0 \<le> G" and "0 \<le> B"
  defines "L \<equiv> 2126 / 10000 * R + 7152 / 10000 * G + 722 / 10000 * B"
  shows "L * (1 - u53) ^ 4 \<le> rgbToLum R G B \<and> rgbToLum R G B \<le> L * (1 + u53) ^ 4"
proof -
  define p1 where "p1 = fl (fl (2126 / 10000) * R)"
  define p2 where "p2 = fl (fl (7152 / 10000) * G)"
  define p3 where "p3 = fl (fl (722 / 10000) * B)"
  define a1 where "a1 = 2126 / 10000 * R"
  define a2 where "a2 = 7152 / 10000 * G"
  define a3 where "a3 = 722 / 10000 * B"
  have a: "0 \<le> a1" "0 \<le> a2" "0 \<le> a3" using assms(1-3) by (simp_all add: a1_def a2_def a3_def)
  have b1: "a1 * (1 - u53) ^ 2 \<le> p1 \<and> p1 \<le> a1 * (1 + u53) ^ 2"
    unfolding p1_def a1_def using assms(1) by (intro fl_const_mult) simp_all
  have b2: "a2 * (1 - u53) ^ 2 \<le> p2 \<and> p2 \<le> a2 * (1 + u53) ^ 2"
    unfolding p2_def a2_def using assms(2) by (intro fl_const_mult) simp_all
  have b3: "a3 * (1 - u53) ^ 2 \<le> p3 \<and> p3 \<le> a3 * (1 + u53) ^ 2"
    unfolding p3_def a3_def using assms(3) by (intro fl_const_mult) simp_all
  have s1: "(a1 + a2) * (1 - u53) ^ Suc 2 \<le> fl (p1 + p2) \<and> fl (p1 + p2) \<le> (a1 + a2) * (1 + u53) ^ Suc 2"
    using a b1 b2 by (intro fl_between_pow) (simp_all add: distrib_right)
  have l32: "a3 * (1 - u53) ^ Suc 2 \<le> a3 * (1 - u53) ^ 2"
    using a(3) lo_pow_le [of 2] by (intro mult_left_mono) simp_all
  have h23: "a3 * (1 + u53) ^ 2 \<le> a3 * (1 + u53) ^ Suc 2"
    using a(3) hi_pow_le [of 2] by (intro mult_left_mono) simp_all
  have s2: "(a1 + a2 + a3) * (1 - u53) ^ Suc (Suc 2) \<le> fl (fl (p1 + p2) + p3)
            \<and> fl (fl (p1 + p2) + p3) \<le> (a1 + a2 + a3) * (1 + u53) ^ Suc (Suc 2)"
  proof (intro fl_between_pow)
    show "0 \<le> a1 + a2 + a3" using a by simp
    have "(a1 + a2 + a3) * (1 - u53) ^ Suc 2 = (a1 + a2) * (1 - u53) ^ Suc 2 + a3 * (1 - u53) ^ Suc 2"
      by (simp only: distrib_right)
    also have "\<dots> \<le> fl (p1 + p2) + p3" using s1 l32 b3 by linarith
    finally show "(a1 + a2 + a3) * (1 - u53) ^ Suc 2 \<le> fl (p1 + p2) + p3" .
    have "fl (p1 + p2) + p3 \<le> (a1 + a2) * (1 + u53) ^ Suc 2 + a3 * (1 + u53) ^ Suc 2"
      using s1 h23 b3 by linarith
    also have "\<dots> = (a1 + a2 + a3) * (1 + u53) ^ Suc 2" by (simp only: distrib_right)
    finally show "fl (p1 + p2) + p3 \<le> (a1 + a2 + a3) * (1 + u53) ^ Suc 2" .
  qed
  have e: "rgbToLum R G B = fl (fl (p1 + p2) + p3)"
    by (simp add: rgbToLum_def p1_def p2_def p3_def)
  have L: "L = a1 + a2 + a3" by (simp add: L_def a1_def a2_def a3_def)
  have n: "Suc (Suc 2) = 4" by simp
  from s2 show ?thesis unfolding e L n .
qed

lemma u53_num6: "9 * ((1 + u53) ^ 6 - 1) < 1 / 5100000" "9 * (1 - (1 - u53) ^ 6) < 1 / 5100000"
  by (simp_all add: u53_def field_simps)

lemma u53_num3: "(1 + u53) ^ 3 - 1 \<le> 1 / 2 ^ 50" "1 - (1 - u53) ^ 3 \<le> 1 / 2 ^ 50"
  by (simp_all add: u53_def field_simps)

lemma scaled_err:
  assumes "0 \<le> v" and "v \<le> c" and "v * (1 - u53) ^ n \<le> v'" and "v' \<le> v * (1 + u53) ^ n"
    and "c * ((1 + u53) ^ n - 1) < d" and "c * (1 - (1 - u53) ^ n) < d"
  shows "\<bar>v' - v\<bar> < d"
proof -
  have h0: "0 \<le> (1 + u53) ^ n - 1"
    using u53_range by (simp add: one_le_power)
  have l0: "0 \<le> 1 - (1 - u53) ^ n"
    using u53_range by (simp add: power_le_one)
  have "v' - v \<le> v * ((1 + u53) ^ n - 1)" using assms(4) by (simp add: algebra_simps)
  also have "\<dots> \<le> c * ((1 + u53) ^ n - 1)" using assms(2) h0 by (rule mult_right_mono)
  finally have a: "v' - v < d" using assms(5) by simp
  have "v - v' \<le> v * (1 - (1 - u53) ^ n)" using assms(3) by (simp add: algebra_simps)
  also have "\<dots> \<le> c * (1 - (1 - u53) ^ n)" using assms(2) l0 by (rule mult_right_mono)
  finally have b: "v - v' < d" using assms(6) by simp
  from a b show ?thesis by (simp add: abs_less_iff)
qed

lemma lum_value_between:
  assumes "0 \<le> L" and "L * (1 - u53) ^ 4 \<le> l" and "l \<le> L * (1 + u53) ^ 4"
  shows "L / 255 * 9 * (1 - u53) ^ 6 \<le> fl (fl (l / 255) * 9)
         \<and> fl (fl (l / 255) * 9) \<le> L / 255 * 9 * (1 + u53) ^ 6"
proof -
  have a: "0 \<le> L / 255" using assms(1) by simp
  have s5: "L / 255 * (1 - u53) ^ Suc 4 \<le> fl (l / 255) \<and> fl (l / 255) \<le> L / 255 * (1 + u53) ^ Suc 4"
    using a assms(2,3) by (intro fl_between_pow) (simp_all add: divide_right_mono)
  have a9: "0 \<le> L / 255 * 9" using assms(1) by simp
  have s6: "L / 255 * 9 * (1 - u53) ^ Suc (Suc 4) \<le> fl (fl (l / 255) * 9)
            \<and> fl (fl (l / 255) * 9) \<le> L / 255 * 9 * (1 + u53) ^ Suc (Suc 4)"
  proof (intro fl_between_pow)
    show "0 \<le> L / 255 * 9" by (rule a9)
    have "L / 255 * (1 - u53) ^ Suc 4 * 9 \<le> fl (l / 255) * 9" using s5 by simp
    then show "L / 255 * 9 * (1 - u53) ^ Suc 4 \<le> fl (l / 255) * 9" by (simp add: mult.commute mult.left_commute)
    have "fl (l / 255) * 9 \<le> L / 255 * (1 + u53) ^ Suc 4 * 9" using s5 by simp
    then show "fl (l / 255) * 9 \<le> L / 255 * 9 * (1 + u53) ^ Suc 4" by (simp add: mult.commute mult.left_commute)
  qed
  have n: "Suc (Suc 4) = 6" by simp
  from s6 show ?thesis unfolding n .
qed

lemma lum_index_vs_exact:
  fixes r g b :: nat
  assumes "r \<le> 255" and "g \<le> 255" and "b \<le> 255"
  defines "v \<equiv> (2126 / 10000 * of_nat r + 7152 / 10000 * of_nat g + 722 / 10000 * of_nat b) / 255 * 9"
  defines "ci \<equiv> lum_index (rgbToLum (of_nat r) (of_nat g) (of_nat b))"
  shows "Math_round v - 1 \<le> ci \<and> ci \<le> Math_round v \<and> (\<not> on_tie v \<longrightarrow> ci = Math_round v)
         \<and> 0 \<le> Math_round v \<and> Math_round v \<le> 9"
proof -
  define L :: rat where "L = 2126 / 10000 * of_nat r + 7152 / 10000 * of_nat g + 722 / 10000 * of_nat b"
  define v' where "v' = fl (fl (rgbToLum (of_nat r) (of_nat g) (of_nat b) / 255) * 9)"
  have "(of_nat r :: rat) \<le> of_nat 255" "(of_nat g :: rat) \<le> of_nat 255"
       "(of_nat b :: rat) \<le> of_nat 255"
    using assms(1-3) by (simp_all only: of_nat_le_iff)
  then have rb: "(of_nat r :: rat) \<le> 255" "(of_nat g :: rat) \<le> 255" "(of_nat b :: rat) \<le> 255"
    by simp_all
  have L0: "0 \<le> L" by (simp add: L_def)
  have L1: "L \<le> 255" using rb by (simp add: L_def)
  have v: "v = L / 255 * 9" by (simp add: v_def L_def)
  have v0: "0 \<le> v" using L0 by (simp add: v)
  have v9: "v \<le> 9" using L1 by (simp add: v)
  from rgbToLum_between [of "of_nat r" "of_nat g" "of_nat b"]
  have lb: "L * (1 - u53) ^ 4 \<le> rgbToLum (of_nat r) (of_nat g) (of_nat b)"
           "rgbToLum (of_nat r) (of_nat g) (of_nat b) \<le> L * (1 + u53) ^ 4"
    by (simp_all add: L_def)
  from lum_value_between [OF L0 lb]
  have vb: "v * (1 - u53) ^ 6 \<le> v'" "v' \<le> v * (1 + u53) ^ 6" by (simp_all add: v v'_def)
  have err: "\<bar>v' - v\<bar> < 1 / of_int 5100000"
    using scaled_err [OF v0 v9 vb u53_num6] by simp
  define S where "S = 2126 * int r + 7152 * int g + 722 * int b"
  have xv: "v + 1 / 2 = of_int (18 * S + 2550000) / of_int 5100000"
    by (simp add: v_def S_def field_simps)
  have ci: "ci = Math_round v'"
    by (simp add: ci_def lum_index_def v'_def ASCII_CHARS_def Let_def)
  have b0: "0 \<le> Math_round v" using v0 by (simp add: Math_round_def)
  have b9: "Math_round v \<le> 9"
  proof -
    have "v + 1 / 2 < of_int 10" using v9 by simp
    then have "\<lfloor>v + 1 / 2\<rfloor> < 10" by (simp only: floor_less_iff)
    then show ?thesis by (simp add: Math_round_def)
  qed
  from Math_round_close [OF _ xv err] b0 b9 show ?thesis by (simp add: ci)
qed

lemma targetHeight_value_between:
  fixes w h :: nat and W :: int
  assumes "0 < w" and "0 \<le> W"
  defines "x \<equiv> (of_nat h / of_nat w * of_int W * (1 / 2) :: rat)"
  defines "x' \<equiv> fl (fl (fl (of_nat h / of_nat w) * of_int W) * (1 / 2))"
  shows "x * (1 - u53) ^ 3 \<le> x' \<and> x' \<le> x * (1 + u53) ^ 3"
proof -
  define q :: rat where "q = of_nat h / of_nat w"
  have q0: "0 \<le> q" by (simp add: q_def)
  have W0: "(0::rat) \<le> of_int W" using assms(2) by simp
  have s1: "q * (1 - u53) ^ Suc 0 \<le> fl q \<and> fl q \<le> q * (1 + u53) ^ Suc 0"
    using q0 by (intro fl_between_pow) simp_all
  have a2: "0 \<le> q * of_int W" using q0 W0 by simp
  have s2: "q * of_int W * (1 - u53) ^ Suc (Suc 0) \<le> fl (fl q * of_int W)
            \<and> fl (fl q * of_int W) \<le> q * of_int W * (1 + u53) ^ Suc (Suc 0)"
  proof (intro fl_between_pow)
    show "0 \<le> q * of_int W" by (rule a2)
    have "q * (1 - u53) ^ Suc 0 * of_int W \<le> fl q * of_int W"
      using s1 W0 by (intro mult_right_mono) simp_all
    then show "q * of_int W * (1 - u53) ^ Suc 0 \<le> fl q * of_int W"
      by (simp add: mult.commute mult.left_commute)
    have "fl q * of_int W \<le> q * (1 + u53) ^ Suc 0 * of_int W"
      using s1 W0 by (intro mult_right_mono) simp_all
    then show "fl q * of_int W \<le> q * of_int W * (1 + u53) ^ Suc 0"
      by (simp add: mult.commute mult.left_commute)
  qed
  have a3: "0 \<le> q * of_int W * (1 / 2)" using a2 by simp
  have s3: "q * of_int W * (1 / 2) * (1 - u53) ^ Suc (Suc (Suc 0)) \<le> fl (fl (fl q * of_int W) * (1 / 2))
            \<and> fl (fl (fl q * of_int W) * (1 / 2)) \<le> q * of_int W * (1 / 2) * (1 + u53) ^ Suc (Suc (Suc 0))"
  proof (intro fl_between_pow)
    show "0 \<le> q * of_int W * (1 / 2)" by (rule a3)
    have "q * of_int W * (1 - u53) ^ Suc (Suc 0) * (1 / 2) \<le> fl (fl q * of_int W) * (1 / 2)"
      using s2 by (intro mult_right_mono) simp_all
    then show "q * of_int W * (1 / 2) * (1 - u53) ^ Suc (Suc 0) \<le> fl (fl q * of_int W) * (1 / 2)"
      by (simp add: mult.commute mult.left_commute)
    have "fl (fl q * of_int W) * (1 / 2) \<le> q * of_int W * (1 + u53) ^ Suc (Suc 0) * (1 / 2)"
      using s2 by (intro mult_right_mono) simp_all
    then show "fl (fl q * of_int W) * (1 / 2) \<le> q * of_int W * (1 / 2) * (1 + u53) ^ Suc (Suc 0)"
      by (simp add: mult.commute mult.left_commute)
  qed
  have n: "Suc (Suc (Suc 0)) = 3" by simp
  from s3 show ?thesis unfolding n x_def x'_def q_def .
qed

lemma targetHeight_vs_exact:
  fixes w h :: nat and W :: int
  assumes "0 < w" and "0 < W" and "int h * W < 2 ^ 50"
  defines "x \<equiv> (of_nat h / of_nat w * of_int W * (1 / 2) :: rat)"
  shows "spec_targetHeight w h W - 1 \<le> targetHeight w h W
         \<and> targetHeight w h W \<le> spec_targetHeight w h W
         \<and> (\<not> on_tie x \<longrightarrow> targetHeight w h W = spec_targetHeight w h W)"
proof -
  define x' where "x' = fl (fl (fl (of_nat h / of_nat w) * of_int W) * (1 / 2))"
  define D where "D = 2 * int w"
  have D: "0 < D" using assms(1) by (simp add: D_def)
  have wr: "(0::rat) < of_nat w" using assms(1) by simp
  have Dr: "(0::rat) < of_int D" using D by simp
  have x0: "0 \<le> x" using assms(2) by (simp add: x_def)
  have W0: "0 \<le> W" using assms(2) by simp
  from targetHeight_value_between [OF assms(1) W0, of h]
  have vb: "x * (1 - u53) ^ 3 \<le> x'" "x' \<le> x * (1 + u53) ^ 3" by (simp_all add: x_def x'_def)
  have xe: "x = of_int (int h * W) / of_int D"
    using wr by (simp add: x_def D_def field_simps)
  have hw: "(of_int (int h * W) :: rat) < 2 ^ 50"
  proof -
    have "(of_int (int h * W) :: rat) < of_int (2 ^ 50)" using assms(3) by (simp only: of_int_less_iff)
    then show ?thesis by simp
  qed
  have small: "x * (1 / 2 ^ 50) < 1 / of_int D"
  proof -
    define a :: rat where "a = of_int (int h * W) * (1 / 2 ^ 50)"
    have "a < 1" using hw by (simp add: a_def field_simps)
    then have "a / of_int D < 1 / of_int D" using Dr by (rule divide_strict_right_mono)
    moreover have "x * (1 / 2 ^ 50) = a / of_int D" by (simp add: xe a_def)
    ultimately show ?thesis by (simp only:)
  qed
  have e1: "x * ((1 + u53) ^ 3 - 1) < 1 / of_int D"
  proof -
    have "x * ((1 + u53) ^ 3 - 1) \<le> x * (1 / 2 ^ 50)"
      using u53_num3(1) x0 by (rule mult_left_mono)
    with small show ?thesis by simp
  qed
  have e2: "x * (1 - (1 - u53) ^ 3) < 1 / of_int D"
  proof -
    have "x * (1 - (1 - u53) ^ 3) \<le> x * (1 / 2 ^ 50)"
      using u53_num3(2) x0 by (rule mult_left_mono)
    with small show ?thesis by simp
  qed
  have err: "\<bar>x' - x\<bar> < 1 / of_int D"
    using x0 _ vb e1 e2 by (rule scaled_err) simp
  have xv: "x + 1 / 2 = of_int (int h * W + int w) / of_int D"
    using wr by (simp add: x_def D_def field_simps)
  from Math_round_close [OF D xv err]
  have r: "Math_round x - 1 \<le> Math_round x'" "Math_round x' \<le> Math_round x"
    "\<not> on_tie x \<longrightarrow> Math_round x' = Math_round x" by simp_all
  have t: "targetHeight w h W = max 1 (Math_round x')"
    by (simp add: targetHeight_def Math_max_def Let_def x'_def max_def)
  have s: "spec_targetHeight w h W = max 1 (Math_round x)"
    by (simp add: spec_targetHeight_def x_def)
  from r show ?thesis unfolding t s by (auto simp add: max_def)
qed

section \<open>The luminance mapper\<close>

text \<open>
  Claim C10. For every pixel, with channels \<open>R\<close>, \<open>G\<close>, \<open>B\<close> that are bytes, the index the
  source computes at line 45 lies in \<open>[0, 9]\<close>, so the lookup \<^verbatim>\<open>ASCII_CHARS[idx]\<close>, which
  does no clamping, stays inside the ten characters of the palette and yields one
  character of it.
\<close>

theorem palette_lookup_in_bounds:
  fixes r g b :: "8 word"
  defines "idx \<equiv> lum_index (rgbToLum (of_nat (unat r)) (of_nat (unat g)) (of_nat (unat b)))"
  shows "0 \<le> idx \<and> idx \<le> 9 \<and> idx < int (length ASCII_CHARS)
         \<and> char_at ASCII_CHARS idx = [ASCII_CHARS ! nat idx]"
proof -
  have "0 \<le> idx \<and> idx \<le> 9" unfolding idx_def by (rule pixel_index_bounds)
  then show ?thesis by (simp add: char_at_def ASCII_CHARS_def)
qed

lemma byte_le_255_nat: "unat (w :: 8 word) \<le> 255"
proof -
  have "unat w < 2 ^ 8" using unsigned_less [of w] by simp
  then show ?thesis by simp
qed

lemma spec_palette_index_round:
  "spec_palette_index R G B
   = Math_round (spec_luminance (of_nat (unat R)) (of_nat (unat G)) (of_nat (unat B)) / 255 * 9)
   \<and> 0 \<le> spec_palette_index R G B \<and> spec_palette_index R G B \<le> 9"
proof -
  from lum_index_vs_exact [OF byte_le_255_nat [of R] byte_le_255_nat [of G] byte_le_255_nat [of B]]
  have b: "0 \<le> Math_round (spec_luminance (of_nat (unat R)) (of_nat (unat G)) (of_nat (unat B)) / 255 * 9)"
          "Math_round (spec_luminance (of_nat (unat R)) (of_nat (unat G)) (of_nat (unat B)) / 255 * 9) \<le> 9"
    by (simp_all only: spec_luminance_def)
  then show ?thesis by (simp add: spec_palette_index_def clamp_index_def Let_def)
qed

lemma white_not_on_tie: "\<not> on_tie (spec_luminance 255 255 255 / 255 * 9)"
  by code_simp

lemma spec_index_white: "spec_palette_index 255 255 255 = 9"
  by code_simp

text \<open>
  Claim C3, as amended. For every pixel whose alpha is at or above the threshold, the text
  appended to the row is the one character of the palette \<open>@%#*+=-:. \<close> (ten symbols) at
  the index that the source computes for
  \<open>round (((0.2126 R + 0.7152 G + 0.0722 B) / 255) * 9)\<close> in binary64 arithmetic. That index
  lies in \<open>[0, 9]\<close>, so that clamping changes nothing. It is the index of the formula
  computed exactly whenever the exact value before rounding is not on a tie, and that
  index or the one below it on a tie.
\<close>

theorem opaque_pixel_char:
  fixes d :: "8 word list"
  assumes "\<not> uint (d ! (i + 3)) < thr"
  defines "idx \<equiv> lum_index (rgbToLum (of_nat (unat (d ! i))) (of_nat (unat (d ! (i + 1))))
                                      (of_nat (unat (d ! (i + 2)))))"
  defines "exact \<equiv> spec_palette_index (d ! i) (d ! (i + 1)) (d ! (i + 2))"
  shows "pixel_char d i thr = [ASCII_CHARS ! nat idx]
         \<and> 0 \<le> idx \<and> idx \<le> 9 \<and> clamp_index 0 9 idx = idx
         \<and> exact - 1 \<le> idx \<and> idx \<le> exact
         \<and> (\<not> on_tie (spec_luminance (of_nat (unat (d ! i))) (of_nat (unat (d ! (i + 1))))
                                       (of_nat (unat (d ! (i + 2)))) / 255 * 9)
              \<longrightarrow> idx = exact)
         \<and> ASCII_CHARS = ''@%#*+=-:. '' \<and> length ASCII_CHARS = 10"
proof -
  have b: "0 \<le> idx \<and> idx \<le> 9" unfolding idx_def by (rule pixel_index_bounds)
  have p: "pixel_char d i thr = char_at ASCII_CHARS idx"
    using assms(1) by (simp add: pixel_char_def idx_def Let_def)
  have e: "exact = Math_round (spec_luminance (of_nat (unat (d ! i))) (of_nat (unat (d ! (i + 1))))
                                 (of_nat (unat (d ! (i + 2)))) / 255 * 9)"
    unfolding exact_def using spec_palette_index_round by simp
  from lum_index_vs_exact [OF byte_le_255_nat [of "d ! i"] byte_le_255_nat [of "d ! (i + 1)"]
      byte_le_255_nat [of "d ! (i + 2)"]]
  have r: "exact - 1 \<le> idx" "idx \<le> exact"
    "\<not> on_tie (spec_luminance (of_nat (unat (d ! i))) (of_nat (unat (d ! (i + 1))))
                             (of_nat (unat (d ! (i + 2)))) / 255 * 9) \<longrightarrow> idx = exact"
    unfolding e idx_def spec_luminance_def by simp_all
  from b p r show ?thesis by (simp add: char_at_def ASCII_CHARS_def clamp_index_def)
qed

theorem opaque_pixel_char_witness:
  "\<not> uint ([255, 255, 255, 255 :: 8 word] ! (0 + 3)) < 16
   \<and> pixel_char [255, 255, 255, 255] 0 16 = '' ''
   \<and> spec_palette_index 255 255 255 = 9
   \<and> lum_index (rgbToLum (of_nat (unat (255 :: 8 word))) (of_nat (unat (255 :: 8 word)))
                          (of_nat (unat (255 :: 8 word))))
       = spec_palette_index 255 255 255"
proof -
  have h: "\<not> uint ([255, 255, 255, 255 :: 8 word] ! (0 + 3)) < 16" by simp
  have v: "pixel_char [255, 255, 255, 255] 0 16 = '' ''"
    using h by (simp add: pixel_char_def Let_def lum_index_white char_at_def ASCII_CHARS_def)
  have n: "\<not> on_tie (spec_luminance (of_nat (unat ([255, 255, 255, 255 :: 8 word] ! 0)))
                         (of_nat (unat ([255, 255, 255, 255 :: 8 word] ! (0 + 1))))
                         (of_nat (unat ([255, 255, 255, 255 :: 8 word] ! (0 + 2)))) / 255 * 9)"
    using white_not_on_tie by simp
  from opaque_pixel_char [OF h] n
  have "lum_index (rgbToLum (of_nat (unat (255 :: 8 word))) (of_nat (unat (255 :: 8 word)))
                          (of_nat (unat (255 :: 8 word))))
       = spec_palette_index 255 255 255"
    by simp
  with h v spec_index_white show ?thesis by simp
qed

text \<open>
  The claim as first stated took the index of the formula computed exactly. For the opaque
  pixel \<open>(10, 51, 54)\<close> the exact value before rounding is \<open>1.5\<close>, whose index is 2, the
  character \<open>#\<close>; the source computes a value just below and appends \<open>%\<close>.
\<close>

theorem opaque_pixel_char_counterexample:
  "\<not> uint ([10, 51, 54, 255 :: 8 word] ! (0 + 3)) < 16
   \<and> pixel_char [10, 51, 54, 255] 0 16 = ''%''
   \<and> [ASCII_CHARS ! nat (spec_palette_index 10 51 54)] = ''#''
   \<and> on_tie (spec_luminance 10 51 54 / 255 * 9)"
  by code_simp

text \<open>
  Claim C5. For every pixel whose alpha is strictly below \<^verbatim>\<open>alphaThreshold\<close> (16 unless
  changed), the text appended to the row is one space, whatever \<open>R\<close>, \<open>G\<close> and \<open>B\<close> are: the
  branch taken does not use them.
\<close>

theorem transparent_pixel_space:
  assumes "uint a < thr"
  shows "pixel_char [r, g, b, a] 0 thr = '' ''
         \<and> (d ! (i + 3) = a \<longrightarrow> pixel_char d i thr = '' '')
         \<and> alphaThreshold App_init = 16"
  using assms by (simp add: pixel_char_def Let_def App_init_def)

theorem transparent_pixel_space_witness:
  "uint (15 :: 8 word) < alphaThreshold App_init
   \<and> pixel_char [200, 100, 50, 15] 0 (alphaThreshold App_init) = '' ''
   \<and> pixel_char [0, 0, 0, 15] 0 (alphaThreshold App_init) = '' ''"
proof -
  have h: "uint (15 :: 8 word) < alphaThreshold App_init" by (simp add: App_init_def)
  from transparent_pixel_space [OF h, of 200 100 50] transparent_pixel_space [OF h, of 0 0 0] h
  show ?thesis by simp
qed

text \<open>
  Claim C8. For every two RGB triples, if the luminance computed for the first is at most
  the luminance computed for the second, the palette index of the first is at most the
  palette index of the second.
\<close>

theorem palette_index_monotone:
  fixes r1 g1 b1 r2 g2 b2 :: "8 word"
  assumes "rgbToLum (of_nat (unat r1)) (of_nat (unat g1)) (of_nat (unat b1))
           \<le> rgbToLum (of_nat (unat r2)) (of_nat (unat g2)) (of_nat (unat b2))"
  shows "lum_index (rgbToLum (of_nat (unat r1)) (of_nat (unat g1)) (of_nat (unat b1)))
         \<le> lum_index (rgbToLum (of_nat (unat r2)) (of_nat (unat g2)) (of_nat (unat b2)))"
proof -
  have "0 \<le> rgbToLum (of_nat (unat r1)) (of_nat (unat g1)) (of_nat (unat b1))"
    by (intro rgbToLum_nonneg of_nat_0_le_iff)
  then show ?thesis using assms by (rule lum_index_mono)
qed

theorem palette_index_monotone_witness:
  "rgbToLum (of_nat (unat (10 :: 8 word))) (of_nat (unat (20 :: 8 word))) (of_nat (unat (30 :: 8 word)))
     \<le> rgbToLum (of_nat (unat (200 :: 8 word))) (of_nat (unat (20 :: 8 word))) (of_nat (unat (30 :: 8 word)))
   \<and> lum_index (rgbToLum (of_nat (unat (10 :: 8 word))) (of_nat (unat (20 :: 8 word))) (of_nat (unat (30 :: 8 word))))
     \<le> lum_index (rgbToLum (of_nat (unat (200 :: 8 word))) (of_nat (unat (20 :: 8 word))) (of_nat (unat (30 :: 8 word))))"
proof -
  have h: "rgbToLum (of_nat (unat (10 :: 8 word))) (of_nat (unat (20 :: 8 word))) (of_nat (unat (30 :: 8 word)))
     \<le> rgbToLum (of_nat (unat (200 :: 8 word))) (of_nat (unat (20 :: 8 word))) (of_nat (unat (30 :: 8 word)))"
    by (intro rgbToLum_mono) simp_all
  from palette_index_monotone [OF h] h show ?thesis by simp
qed

section \<open>The grid resampler\<close>

lemma length_pixel_char: "length (pixel_char d i thr) = 1"
proof (cases "uint (d ! (i + 3)) < thr")
  case True
  then show ?thesis by (simp add: pixel_char_def Let_def)
next
  case False
  define idx where
    "idx = lum_index (rgbToLum (of_nat (unat (d ! i))) (of_nat (unat (d ! (i + 1))))
                               (of_nat (unat (d ! (i + 2)))))"
  have b: "0 \<le> idx \<and> idx \<le> 9" unfolding idx_def by (rule pixel_index_bounds)
  have "pixel_char d i thr = char_at ASCII_CHARS idx"
    using False by (simp add: pixel_char_def idx_def Let_def)
  with b show ?thesis by (simp add: char_at_def ASCII_CHARS_def)
qed

lemma length_concat_map1:
  assumes "\<And>x. length (f x) = 1"
  shows "length (concat (map f [0..<n])) = n"
  by (induction n) (simp_all add: assms)

lemma length_ascii_row: "length (ascii_row resized thr y) = width resized"
  unfolding ascii_row_def by (rule length_concat_map1) (rule length_pixel_char)

lemma length_ascii_lines: "length (ascii_lines resized thr) = height resized"
  by (simp add: ascii_lines_def)

lemma set_ascii_lines: "row \<in> set (ascii_lines resized thr) \<Longrightarrow> length row = width resized"
  by (auto simp add: ascii_lines_def length_ascii_row)

lemma targetHeight_ge1: "1 \<le> targetHeight w h tw"
  by (simp add: targetHeight_def Math_max_def Let_def)

lemma targetHeight_zero: "targetHeight w h 0 = 1"
  by (simp add: targetHeight_def Math_max_def Math_round_def Let_def fl_zero)

lemma imageDataToAscii_zero: "imageDataToAscii pf img 0 thr = Inl IndexSizeError"
  by (simp add: imageDataToAscii_def getImageData_scaled_def Let_def targetHeight_zero in_long_def)

lemma imageDataToAscii_ok:
  assumes "W \<noteq> 0" and "in_long W"
    and "targetHeight (width img) (height img) W < 2 ^ 31"
    and "\<not> out_of_memory pf (nat \<bar>W\<bar>) (nat (targetHeight (width img) (height img) W))"
  shows "\<exists>rows. imageDataToAscii pf img W thr = Inr rows
           \<and> int (length rows) = targetHeight (width img) (height img) W
           \<and> (\<forall>row \<in> set rows. int (length row) = \<bar>W\<bar>)"
proof -
  define th where "th = targetHeight (width img) (height img) W"
  have t: "1 \<le> th" unfolding th_def by (rule targetHeight_ge1)
  have tl: "in_long th" using t assms(3) by (simp add: in_long_def th_def)
  have ta: "\<bar>th\<bar> = th" using t by simp
  define resized where
    "resized = \<lparr>data = map (scaled_byte pf img W th) [0..<4 * (nat \<bar>W\<bar> * nat \<bar>th\<bar>)],
                 width = nat \<bar>W\<bar>, height = nat \<bar>th\<bar>\<rparr>"
  have m: "\<not> out_of_memory pf (nat \<bar>W\<bar>) (nat \<bar>th\<bar>)"
    unfolding ta using assms(4) by (simp add: th_def)
  have g: "getImageData_scaled pf img W th = Inr resized"
    using assms(1,2) t tl m by (simp add: getImageData_scaled_def resized_def)
  have e: "imageDataToAscii pf img W thr = Inr (ascii_lines resized thr)"
    by (simp add: imageDataToAscii_def Let_def th_def [symmetric] g)
  have "int (length (ascii_lines resized thr)) = th"
    using t by (simp add: length_ascii_lines resized_def)
  moreover have "\<forall>row \<in> set (ascii_lines resized thr). int (length row) = \<bar>W\<bar>"
    by (auto dest!: set_ascii_lines simp add: resized_def)
  ultimately show ?thesis using e by (simp add: th_def)
qed

lemma demo_image_ascii: "imageDataToAscii copy_scaler demo_image 2 16 = Inr ['' @'']"
  by code_simp

lemma demo_targetHeight: "targetHeight 2 1 2 = 1 \<and> targetHeight 4 1 1 = 1 \<and> targetHeight 1 1 80 = 40"
  by code_simp

lemma demo_loop:
  "map_sum id fst (frames_loop demo_config (createCanvas 2 1) [] (decompressed demo_gif))
   = Inr [[''@ ''], ['' @'']]"
  by code_simp

lemma demo_decode:
  "decodeGifFromBytes copy_scaler demo_playing demo_gif
   = Inr (demo_playing\<lparr>frames := Some [[''@ ''], ['' @'']], index := Some 0\<rparr>)"
  by code_simp

text \<open>
  Claim C4, as amended. For every image of width \<open>w > 0\<close> and height \<open>h\<close> and every output
  width \<open>W\<close> with \<open>1 \<le> W < 2 ^ 31\<close> for which the computed \<open>H\<close> is below \<open>2 ^ 31\<close> and
  the browser can allocate an image of \<open>W \<times> H\<close> pixels, the resampler produces a grid of
  exactly \<open>H\<close> rows, every row of exactly \<open>W\<close> characters, where \<open>H\<close> is
  \<open>max 1 (round ((h / w) * W * 0.5))\<close> computed in binary64 arithmetic; a computed \<open>H\<close> of
  0 is raised to 1. For \<open>h * W < 2 ^ 50\<close> this \<open>H\<close> is the value of the formula computed
  exactly whenever the exact value before rounding is not on a tie, and that value or one
  less on a tie. The width is not raised: with \<open>W = 0\<close> the resampler returns no grid,
  because \<^verbatim>\<open>getImageData\<close> throws \<^verbatim>\<open>IndexSizeError\<close>, and the handler of the width
  field replaces an entered 0 by the default of 80 before it is stored.
\<close>

theorem resampler_grid_size:
  assumes "0 < width imgData" and "0 < W" and "W < 2 ^ 31"
    and "targetHeight (width imgData) (height imgData) W < 2 ^ 31"
    and "\<not> out_of_memory pf (nat W) (nat (targetHeight (width imgData) (height imgData) W))"
  shows "(\<exists>rows. imageDataToAscii pf imgData W thr = Inr rows
            \<and> int (length rows) = targetHeight (width imgData) (height imgData) W
            \<and> (\<forall>row \<in> set rows. int (length row) = W))
         \<and> 1 \<le> targetHeight (width imgData) (height imgData) W
         \<and> targetHeight (width imgData) (height imgData) W
             = max 1 (Math_round (fl (fl (fl (of_nat (height imgData) / of_nat (width imgData))
                                          * of_int W) * (1 / 2))))
         \<and> (int (height imgData) * W < 2 ^ 50 \<longrightarrow>
               spec_targetHeight (width imgData) (height imgData) W - 1
                 \<le> targetHeight (width imgData) (height imgData) W
             \<and> targetHeight (width imgData) (height imgData) W
                 \<le> spec_targetHeight (width imgData) (height imgData) W
             \<and> (\<not> on_tie (of_nat (height imgData) / of_nat (width imgData) * of_int W * (1 / 2))
                  \<longrightarrow> targetHeight (width imgData) (height imgData) W
                        = spec_targetHeight (width imgData) (height imgData) W))
         \<and> imageDataToAscii pf imgData 0 thr = Inl IndexSizeError
         \<and> width_st (onChange_width st (Some 0)) = DEFAULT_WIDTH"
proof -
  have w0: "W \<noteq> 0" and wl: "in_long W" and wa: "\<bar>W\<bar> = W"
    using assms(2,3) by (simp_all add: in_long_def)
  have m: "\<not> out_of_memory pf (nat \<bar>W\<bar>) (nat (targetHeight (width imgData) (height imgData) W))"
    unfolding wa by (rule assms(5))
  from imageDataToAscii_ok [OF w0 wl assms(4) m, of thr]
  have a: "\<exists>rows. imageDataToAscii pf imgData W thr = Inr rows
            \<and> int (length rows) = targetHeight (width imgData) (height imgData) W
            \<and> (\<forall>row \<in> set rows. int (length row) = W)"
    unfolding wa .
  have b: "targetHeight (width imgData) (height imgData) W
             = max 1 (Math_round (fl (fl (fl (of_nat (height imgData) / of_nat (width imgData))
                                          * of_int W) * (1 / 2))))"
    by (simp add: targetHeight_def Math_max_def Let_def max_def)
  have c: "width_st (onChange_width st (Some 0)) = DEFAULT_WIDTH"
    by (simp add: onChange_width_def)
  have d: "int (height imgData) * W < 2 ^ 50 \<longrightarrow>
               spec_targetHeight (width imgData) (height imgData) W - 1
                 \<le> targetHeight (width imgData) (height imgData) W
             \<and> targetHeight (width imgData) (height imgData) W
                 \<le> spec_targetHeight (width imgData) (height imgData) W
             \<and> (\<not> on_tie (of_nat (height imgData) / of_nat (width imgData) * of_int W * (1 / 2))
                  \<longrightarrow> targetHeight (width imgData) (height imgData) W
                        = spec_targetHeight (width imgData) (height imgData) W)"
    using targetHeight_vs_exact [OF assms(1,2)] by blast
  show ?thesis
    by (intro conjI a targetHeight_ge1 b d imageDataToAscii_zero c)
qed

theorem resampler_grid_size_witness:
  "0 < width demo_image \<and> (0::int) < 2 \<and> (2::int) < 2 ^ 31
   \<and> targetHeight (width demo_image) (height demo_image) 2 < 2 ^ 31
   \<and> imageDataToAscii copy_scaler demo_image 2 16 = Inr ['' @'']
   \<and> targetHeight (width demo_image) (height demo_image) 2 = 1
   \<and> spec_targetHeight (width demo_image) (height demo_image) 2 = 1
   \<and> (\<exists>rows. imageDataToAscii copy_scaler demo_image 2 16 = Inr rows
            \<and> int (length rows) = targetHeight (width demo_image) (height demo_image) 2
            \<and> (\<forall>row \<in> set rows. int (length row) = 2))"
proof -
  have h1: "0 < width demo_image" by (simp add: demo_image_def)
  have h2: "(0::int) < 2" and h3: "(2::int) < 2 ^ 31" by simp_all
  have t: "targetHeight (width demo_image) (height demo_image) 2 = 1"
    using demo_targetHeight by (simp add: demo_image_def)
  have h4: "targetHeight (width demo_image) (height demo_image) 2 < 2 ^ 31" by (simp add: t)
  have h5: "\<not> out_of_memory copy_scaler (nat 2)
                (nat (targetHeight (width demo_image) (height demo_image) 2))"
    by (simp add: copy_scaler_def)
  have s: "spec_targetHeight (width demo_image) (height demo_image) 2 = 1"
    by (simp add: spec_targetHeight_def demo_image_def Math_round_def)
  from resampler_grid_size [OF h1 h2 h3 h4 h5, of 16 App_init] h1 t h4 s demo_image_ascii
  show ?thesis by simp
qed

text \<open>
  The claim as first stated promised a grid for every width, with a width of 0 treated as
  1, and a number of rows equal to the formula computed exactly. At the width 0 the
  source returns an error, as it does at the width \<open>2 ^ 31\<close>; and for an image of 3 by 13
  pixels at the width 27 the exact value before rounding is \<open>58.5\<close>, which gives 59 rows,
  where the source computes 58.
\<close>

theorem resampler_zero_width_counterexample:
  "imageDataToAscii copy_scaler demo_image 0 16 = Inl IndexSizeError
   \<and> imageDataToAscii copy_scaler demo_image (2 ^ 31) 16 = Inl TypeError
   \<and> targetHeight 3 13 27 = 58 \<and> spec_targetHeight 3 13 27 = 59"
  by code_simp

section \<open>The frame compositor\<close>

lemma length_concat_map4:
  assumes "\<And>x. length (f x) = 4"
  shows "length (concat (map f [0..<n])) = 4 * n"
  by (induction n) (simp_all add: assms)

lemma concat_map_nth4:
  assumes "\<And>x. length (f x) = 4" and "i < n" and "k < 4"
  shows "concat (map f [0..<n]) ! (i * 4 + k) = f i ! k"
  using assms(2)
proof (induction n)
  case 0
  then show ?case by simp
next
  case (Suc n)
  have len: "length (concat (map f [0..<n])) = 4 * n"
    using assms(1) by (rule length_concat_map4)
  show ?case
  proof (cases "i < n")
    case True
    with Suc.IH have "concat (map f [0..<n]) ! (i * 4 + k) = f i ! k" by simp
    moreover have "i * 4 + k < 4 * n" using True assms(3) by simp
    ultimately show ?thesis by (simp add: nth_append len)
  next
    case False
    with Suc.prems have "i = n" by simp
    then show ?thesis by (simp add: nth_append len)
  qed
qed

lemma length_rgba_bytes: "length (rgba_bytes p) = 4"
  by (cases p) (simp add: rgba_bytes_def)

lemma rgba_bytes_nth:
  "(rgba_bytes p ! 0, rgba_bytes p ! 1, rgba_bytes p ! 2, rgba_bytes p ! 3) = p"
  by (cases p) (simp add: rgba_bytes_def)

lemma getImageData_Inr:
  assumes "getImageData pf c 0 0 sw sh = Inr full"
  shows "0 < sw \<and> 0 < sh \<and> int sw < 2 ^ 31 \<and> int sh < 2 ^ 31 \<and> \<not> out_of_memory pf sw sh
         \<and> width full = sw \<and> height full = sh \<and> length (data full) = 4 * (sw * sh)
         \<and> (\<forall>x y. x < sw \<and> y < sh \<longrightarrow>
               image_pixel full x y = (if on_canvas c (x, y) then bitmap c (x, y) else transparent))"
proof -
  define g where "g = (\<lambda>i. rgba_bytes (let p = (0 + i mod sw, 0 + i div sw)
                                        in if on_canvas c p then bitmap c p else transparent))"
  from assms have cond: "0 < sw" "0 < sh" "int sw < 2 ^ 31" "int sh < 2 ^ 31"
      "\<not> out_of_memory pf sw sh"
    and full: "full = \<lparr>data = concat (map g [0..<sw * sh]), width = sw, height = sh\<rparr>"
    by (auto simp add: getImageData_def in_long_def g_def split: if_splits)
  have l4: "\<And>i. length (g i) = 4" by (simp add: g_def length_rgba_bytes)
  have len: "length (data full) = 4 * (sw * sh)"
    by (simp add: full length_concat_map4 [of g, OF l4])
  have px: "image_pixel full x y = (if on_canvas c (x, y) then bitmap c (x, y) else transparent)"
    if "x < sw" "y < sh" for x y
  proof -
    have "y * sw + x < Suc y * sw" using that(1) by simp
    also have "\<dots> \<le> sh * sw" using that(2) by (intro mult_le_mono1) simp
    finally have lt: "y * sw + x < sw * sh" by (simp add: mult.commute)
    have d: "data full = concat (map g [0..<sw * sh])" and w: "width full = sw"
      by (simp_all add: full)
    have n: "data full ! ((y * sw + x) * 4 + k) = g (y * sw + x) ! k" if "k < 4" for k
      unfolding d using l4 lt that by (rule concat_map_nth4)
    have gi: "g (y * sw + x) = rgba_bytes (if on_canvas c (x, y) then bitmap c (x, y) else transparent)"
      using that(1) by (simp add: g_def)
    have "image_pixel full x y
          = (data full ! ((y * sw + x) * 4 + 0), data full ! ((y * sw + x) * 4 + 1),
             data full ! ((y * sw + x) * 4 + 2), data full ! ((y * sw + x) * 4 + 3))"
      unfolding image_pixel_def Let_def w by simp
    also have "\<dots> = (g (y * sw + x) ! 0, g (y * sw + x) ! 1, g (y * sw + x) ! 2, g (y * sw + x) ! 3)"
    proof -
      have "data full ! ((y * sw + x) * 4 + 0) = g (y * sw + x) ! 0" by (rule n) simp
      moreover have "data full ! ((y * sw + x) * 4 + 1) = g (y * sw + x) ! 1" by (rule n) simp
      moreover have "data full ! ((y * sw + x) * 4 + 2) = g (y * sw + x) ! 2" by (rule n) simp
      moreover have "data full ! ((y * sw + x) * 4 + 3) = g (y * sw + x) ! 3" by (rule n) simp
      ultimately show ?thesis by (simp only:)
    qed
    finally have "image_pixel full x y
          = (g (y * sw + x) ! 0, g (y * sw + x) ! 1, g (y * sw + x) ! 2, g (y * sw + x) ! 3)" .
    then show ?thesis by (simp only: gi rgba_bytes_nth)
  qed
  from cond len px show ?thesis by (auto simp add: full)
qed

lemma getImageData_ok:
  assumes "0 < sw" and "0 < sh" and "int sw < 2 ^ 31" and "int sh < 2 ^ 31"
    and "\<not> out_of_memory pf sw sh"
  shows "\<exists>full. getImageData pf c 0 0 sw sh = Inr full"
  using assms by (simp add: getImageData_def in_long_def)

lemma new_ImageData_ok:
  assumes "0 < w" "0 < h" "length p = 4 * (w * h)" "w < 2 ^ 16" "h < 2 ^ 16"
  shows "new_ImageData p w h = Inr \<lparr>data = p, width = w, height = h\<rparr>"
proof -
  have "int w < 2 ^ 32" "int h < 2 ^ 32" using assms(4,5) by simp_all
  then have "nat (int w mod 2 ^ 32) = w" "nat (int h mod 2 ^ 32) = h" by simp_all
  then show ?thesis using assms(1,2,3) by (simp add: new_ImageData_def Let_def)
qed

lemma draw_patch_ok:
  assumes "well_formed_frame f"
  shows "\<exists>c1. draw_patch pf c f = Inr c1"
proof (cases "patch f")
  case None
  then show ?thesis by (simp add: draw_patch_def)
next
  case (Some p)
  with assms have "new_ImageData p (dims_width (dims f)) (dims_height (dims f))
        = Inr \<lparr>data = p, width = dims_width (dims f), height = dims_height (dims f)\<rparr>"
    by (intro new_ImageData_ok) (simp_all add: well_formed_frame_def)
  moreover have "in_long (int (dims_left (dims f)))" "in_long (int (dims_top (dims f)))"
    using assms by (simp_all add: well_formed_frame_def in_long_def)
  ultimately show ?thesis using Some by (simp add: draw_patch_def)
qed

lemma draw_patch_size:
  "draw_patch pf c f = Inr c1 \<Longrightarrow> c_width c1 = c_width c \<and> c_height c1 = c_height c"
  by (auto simp add: draw_patch_def putImageData_def split: option.splits sum.splits if_splits)

lemma applyDisposal_size:
  "c_width (applyDisposal c f) = c_width c \<and> c_height (applyDisposal c f) = c_height c"
  by (simp add: applyDisposal_def clearRect_def)

lemma frame_step_Inr:
  assumes "frame_step cfg c f = Inr (ascii, c')"
  shows "\<exists>c1 full. draw_patch (browser cfg) c f = Inr c1
           \<and> getImageData (browser cfg) c1 0 0 (logicalWidth cfg) (logicalHeight cfg) = Inr full
           \<and> imageDataToAscii (browser cfg) full (out_width cfg) (alpha_threshold cfg) = Inr ascii
           \<and> c' = applyDisposal c1 f"
  using assms by (auto simp add: frame_step_def split: sum.splits)

lemma frame_step_ok:
  assumes "well_formed_frame f" and "render_ok cfg"
  shows "\<exists>ascii c'. frame_step cfg c f = Inr (ascii, c')"
proof -
  from draw_patch_ok [OF assms(1)] obtain c1
    where c1: "draw_patch (browser cfg) c f = Inr c1" by blast
  from assms(2) have r: "0 < logicalWidth cfg" "0 < logicalHeight cfg"
      "int (logicalWidth cfg) < 2 ^ 31" "int (logicalHeight cfg) < 2 ^ 31"
      "\<not> out_of_memory (browser cfg) (logicalWidth cfg) (logicalHeight cfg)"
      "out_width cfg \<noteq> 0" "in_long (out_width cfg)"
      "targetHeight (logicalWidth cfg) (logicalHeight cfg) (out_width cfg) < 2 ^ 31"
      "\<not> out_of_memory (browser cfg) (nat \<bar>out_width cfg\<bar>)
            (nat (targetHeight (logicalWidth cfg) (logicalHeight cfg) (out_width cfg)))"
    by (simp_all add: render_ok_def)
  from getImageData_ok [OF r(1,2,3,4,5)] obtain full
    where full: "getImageData (browser cfg) c1 0 0 (logicalWidth cfg) (logicalHeight cfg) = Inr full"
    by blast
  from getImageData_Inr [OF full]
  have d: "width full = logicalWidth cfg" "height full = logicalHeight cfg" by simp_all
  from imageDataToAscii_ok [of "out_width cfg" full "browser cfg" "alpha_threshold cfg"] r(6,7,8,9)
  obtain rows
    where rows: "imageDataToAscii (browser cfg) full (out_width cfg) (alpha_threshold cfg) = Inr rows"
    unfolding d by blast
  show ?thesis by (simp add: frame_step_def c1 full rows)
qed

lemma frame_step_size:
  "frame_step cfg c f = Inr (ascii, c') \<Longrightarrow> c_width c' = c_width c \<and> c_height c' = c_height c"
  by (auto simp add: frame_step_def applyDisposal_size split: sum.splits dest: draw_patch_size)

lemma applyDisposal_2:
  "disposalType f = 2 \<Longrightarrow>
   bitmap (applyDisposal c f) p =
     (if on_canvas c p \<and> in_rect (dims_left (dims f)) (dims_top (dims f))
                               (dims_width (dims f)) (dims_height (dims f)) p
      then transparent else bitmap c p)"
  by (simp add: applyDisposal_def clearRect_def)

text \<open>
  Claim C1. For every patch frame, on a canvas of the logical size, the output of the
  frame is taken from the whole logical canvas after the patch was written and before
  disposal: whenever the step returns, the snapshot has the logical size and holds the
  pixel of the written canvas at every position, and the grid pushed is the one of that
  snapshot. The canvas handed to the next frame is the written canvas after disposal;
  under disposal method 2 it is transparent exactly on the rectangle of the patch and
  equal to the written canvas everywhere else. The step returns for every well-formed
  frame when the sizes are in the range of the platform.
\<close>

theorem snapshot_before_disposal:
  assumes "c_width c = logicalWidth cfg" and "c_height c = logicalHeight cfg"
  shows "(\<forall>ascii c'. frame_step cfg c f = Inr (ascii, c') \<longrightarrow>
           (\<exists>c1 full.
               draw_patch (browser cfg) c f = Inr c1
             \<and> getImageData (browser cfg) c1 0 0 (logicalWidth cfg) (logicalHeight cfg) = Inr full
             \<and> width full = logicalWidth cfg \<and> height full = logicalHeight cfg
             \<and> (\<forall>x y. x < logicalWidth cfg \<and> y < logicalHeight cfg
                    \<longrightarrow> image_pixel full x y = bitmap c1 (x, y))
             \<and> imageDataToAscii (browser cfg) full (out_width cfg) (alpha_threshold cfg) = Inr ascii
             \<and> c' = applyDisposal c1 f
             \<and> (disposalType f = 2 \<longrightarrow>
                  (\<forall>p. bitmap c' p =
                     (if on_canvas c1 p \<and> in_rect (dims_left (dims f)) (dims_top (dims f))
                                                (dims_width (dims f)) (dims_height (dims f)) p
                      then transparent else bitmap c1 p)))))
         \<and> (well_formed_frame f \<and> render_ok cfg
              \<longrightarrow> (\<exists>ascii c'. frame_step cfg c f = Inr (ascii, c')))"
proof (intro conjI allI impI)
  fix ascii c'
  assume s: "frame_step cfg c f = Inr (ascii, c')"
  from frame_step_Inr [OF s] obtain c1 full
    where c1: "draw_patch (browser cfg) c f = Inr c1"
      and full: "getImageData (browser cfg) c1 0 0 (logicalWidth cfg) (logicalHeight cfg) = Inr full"
      and ascii: "imageDataToAscii (browser cfg) full (out_width cfg) (alpha_threshold cfg) = Inr ascii"
      and c': "c' = applyDisposal c1 f"
    by blast
  from draw_patch_size [OF c1] assms
  have sz: "c_width c1 = logicalWidth cfg" "c_height c1 = logicalHeight cfg" by simp_all
  from getImageData_Inr [OF full]
  have dim: "width full = logicalWidth cfg" "height full = logicalHeight cfg"
    and px: "\<forall>x y. x < logicalWidth cfg \<and> y < logicalHeight cfg \<longrightarrow>
                 image_pixel full x y = (if on_canvas c1 (x, y) then bitmap c1 (x, y) else transparent)"
    by blast+
  have px': "\<forall>x y. x < logicalWidth cfg \<and> y < logicalHeight cfg
                \<longrightarrow> image_pixel full x y = bitmap c1 (x, y)"
    using px sz by (simp add: on_canvas_def)
  have d: "disposalType f = 2 \<longrightarrow>
              (\<forall>p. bitmap c' p =
                 (if on_canvas c1 p \<and> in_rect (dims_left (dims f)) (dims_top (dims f))
                                            (dims_width (dims f)) (dims_height (dims f)) p
                  then transparent else bitmap c1 p))"
    unfolding c' by (simp add: applyDisposal_2)
  show "\<exists>c1 full.
               draw_patch (browser cfg) c f = Inr c1
             \<and> getImageData (browser cfg) c1 0 0 (logicalWidth cfg) (logicalHeight cfg) = Inr full
             \<and> width full = logicalWidth cfg \<and> height full = logicalHeight cfg
             \<and> (\<forall>x y. x < logicalWidth cfg \<and> y < logicalHeight cfg
                    \<longrightarrow> image_pixel full x y = bitmap c1 (x, y))
             \<and> imageDataToAscii (browser cfg) full (out_width cfg) (alpha_threshold cfg) = Inr ascii
             \<and> c' = applyDisposal c1 f
             \<and> (disposalType f = 2 \<longrightarrow>
                  (\<forall>p. bitmap c' p =
                     (if on_canvas c1 p \<and> in_rect (dims_left (dims f)) (dims_top (dims f))
                                                (dims_width (dims f)) (dims_height (dims f)) p
                      then transparent else bitmap c1 p)))"
    by (rule exI [of _ c1], rule exI [of _ full]) (intro conjI c1 full dim px' ascii c' d)
next
  assume "well_formed_frame f \<and> render_ok cfg"
  then show "\<exists>ascii c'. frame_step cfg c f = Inr (ascii, c')"
    using frame_step_ok by blast
qed

lemma demo_render_ok: "render_ok demo_config"
  using demo_targetHeight
  by (simp add: render_ok_def demo_config_def copy_scaler_def in_long_def)

lemma demo_step_canvas:
  "frame_step demo_config (createCanvas 2 1) (black_patch 1 2)
   = Inr (['' @''], applyDisposal (putImageData copy_scaler (createCanvas 2 1)
                                     \<lparr>data = [0, 0, 0, 255], width = 1, height = 1\<rparr> 1 0)
                                   (black_patch 1 2))"
proof -
  have cf: "logicalWidth demo_config = 2" "logicalHeight demo_config = 1"
    "browser demo_config = copy_scaler" "out_width demo_config = 2"
    "alpha_threshold demo_config = 16"
    by (simp_all add: demo_config_def)
  have d: "draw_patch copy_scaler (createCanvas 2 1) (black_patch 1 2)
           = Inr (putImageData copy_scaler (createCanvas 2 1)
                    \<lparr>data = [0, 0, 0, 255], width = 1, height = 1\<rparr> 1 0)"
    by (simp add: draw_patch_def black_patch_def new_ImageData_def in_long_def)
  have g: "getImageData copy_scaler (putImageData copy_scaler (createCanvas 2 1)
                           \<lparr>data = [0, 0, 0, 255], width = 1, height = 1\<rparr> 1 0) 0 0 2 1
           = Inr demo_image"
    by code_simp
  show ?thesis
    by (simp only: frame_step_def d cf g demo_image_ascii sum.case)
qed

theorem snapshot_before_disposal_witness:
  "c_width (createCanvas 2 1) = logicalWidth demo_config
   \<and> c_height (createCanvas 2 1) = logicalHeight demo_config
   \<and> well_formed_frame (black_patch 1 2) \<and> render_ok demo_config
   \<and> disposalType (black_patch 1 2) = 2
   \<and> frame_step demo_config (createCanvas 2 1) (black_patch 1 2)
       = Inr (['' @''], applyDisposal (putImageData copy_scaler (createCanvas 2 1)
                                        \<lparr>data = [0, 0, 0, 255], width = 1, height = 1\<rparr> 1 0)
                                      (black_patch 1 2))
   \<and> bitmap (applyDisposal (putImageData copy_scaler (createCanvas 2 1)
                               \<lparr>data = [0, 0, 0, 255], width = 1, height = 1\<rparr> 1 0)
                             (black_patch 1 2)) (1, 0) = transparent
   \<and> (\<exists>c1 full.
           draw_patch (browser demo_config) (createCanvas 2 1) (black_patch 1 2) = Inr c1
         \<and> getImageData (browser demo_config) c1 0 0 (logicalWidth demo_config)
              (logicalHeight demo_config) = Inr full
         \<and> imageDataToAscii (browser demo_config) full (out_width demo_config)
              (alpha_threshold demo_config) = Inr ['' @''])
   \<and> (\<exists>ascii c'. frame_step demo_config (createCanvas 2 1) (black_patch 1 2) = Inr (ascii, c'))"
proof -
  have h1: "well_formed_frame (black_patch 1 2)"
    by (simp add: well_formed_frame_def black_patch_def)
  have h2: "c_width (createCanvas 2 1) = logicalWidth demo_config"
    and h3: "c_height (createCanvas 2 1) = logicalHeight demo_config"
    by (simp_all add: createCanvas_def demo_config_def)
  have h7: "disposalType (black_patch 1 2) = 2" by (simp add: black_patch_def)
  have b: "bitmap (applyDisposal (putImageData copy_scaler (createCanvas 2 1)
                               \<lparr>data = [0, 0, 0, 255], width = 1, height = 1\<rparr> 1 0)
                             (black_patch 1 2)) (1, 0) = transparent"
    by (simp add: applyDisposal_def clearRect_def black_patch_def putImageData_def
        createCanvas_def on_canvas_def in_rect_def)
  note t = snapshot_before_disposal [OF h2 h3, of "black_patch 1 2"]
  from t demo_step_canvas
  have e1: "\<exists>c1 full.
           draw_patch (browser demo_config) (createCanvas 2 1) (black_patch 1 2) = Inr c1
         \<and> getImageData (browser demo_config) c1 0 0 (logicalWidth demo_config)
              (logicalHeight demo_config) = Inr full
         \<and> imageDataToAscii (browser demo_config) full (out_width demo_config)
              (alpha_threshold demo_config) = Inr ['' @'']"
    by blast
  from t h1 demo_render_ok
  have e2: "\<exists>ascii c'. frame_step demo_config (createCanvas 2 1) (black_patch 1 2) = Inr (ascii, c')"
    by blast
  show ?thesis
    by (intro conjI h2 h3 h1 demo_render_ok h7 demo_step_canvas b e1 e2)
qed

section \<open>The animation assembler\<close>

lemma frames_loop_append:
  "frames_loop cfg c acc (fs @ gs) =
     (case frames_loop cfg c acc fs of
        Inl e \<Rightarrow> Inl e
      | Inr (acc', c') \<Rightarrow> frames_loop cfg c' acc' gs)"
  by (induction fs arbitrary: c acc) (simp_all split: sum.splits prod.splits)

lemma frames_loop_acc:
  "frames_loop cfg c acc fs =
     (case frames_loop cfg c [] fs of
        Inl e \<Rightarrow> Inl e
      | Inr (out, c') \<Rightarrow> Inr (acc @ out, c'))"
proof (induction fs arbitrary: c acc)
  case Nil
  then show ?case by simp
next
  case (Cons f fs)
  show ?case
  proof (cases "frame_step cfg c f")
    case (Inl e)
    then show ?thesis by simp
  next
    case (Inr r)
    obtain ascii c1 where r: "r = (ascii, c1)" by (cases r)
    have a: "frames_loop cfg c1 (acc @ [ascii]) fs =
        (case frames_loop cfg c1 [] fs of Inl e \<Rightarrow> Inl e
         | Inr (out, c') \<Rightarrow> Inr ((acc @ [ascii]) @ out, c'))"
      by (rule Cons.IH)
    have b: "frames_loop cfg c1 ([] @ [ascii]) fs =
        (case frames_loop cfg c1 [] fs of Inl e \<Rightarrow> Inl e
         | Inr (out, c') \<Rightarrow> Inr (([] @ [ascii]) @ out, c'))"
      by (rule Cons.IH)
    show ?thesis using Inr r a b by (simp split: sum.splits prod.splits)
  qed
qed

lemma frames_loop_length:
  "frames_loop cfg c acc fs = Inr (out, c') \<Longrightarrow> length out = length acc + length fs"
proof (induction fs arbitrary: c acc)
  case Nil
  then show ?case by simp
next
  case (Cons f fs)
  then show ?case by (fastforce split: sum.splits prod.splits)
qed

lemma frames_loop_ok:
  assumes "render_ok cfg" and "\<forall>f \<in> set fs. well_formed_frame f"
  shows "\<exists>out c'. frames_loop cfg c acc fs = Inr (out, c')"
  using assms(2)
proof (induction fs arbitrary: c acc)
  case Nil
  then show ?case by simp
next
  case (Cons f fs)
  then have "well_formed_frame f" by simp
  from frame_step_ok [OF this assms(1)] obtain ascii c1
    where s: "frame_step cfg c f = Inr (ascii, c1)" by blast
  from Cons obtain out c' where "frames_loop cfg c1 (acc @ [ascii]) fs = Inr (out, c')"
    by fastforce
  with s show ?case by simp
qed

lemma frames_loop_prefix:
  assumes "frames_loop cfg c [] fs = Inr (out, c')" and "n \<le> length fs"
  shows "\<exists>cn. frames_loop cfg c [] (take n fs) = Inr (take n out, cn)
              \<and> frames_loop cfg cn (take n out) (drop n fs) = Inr (out, c')"
proof -
  have "frames_loop cfg c [] (take n fs @ drop n fs) = Inr (out, c')"
    using assms(1) by simp
  then have s: "(case frames_loop cfg c [] (take n fs) of
                   Inl e \<Rightarrow> Inl e
                 | Inr (acc', cn) \<Rightarrow> frames_loop cfg cn acc' (drop n fs)) = Inr (out, c')"
    by (simp only: frames_loop_append)
  then obtain acc' cn where p: "frames_loop cfg c [] (take n fs) = Inr (acc', cn)"
    and r: "frames_loop cfg cn acc' (drop n fs) = Inr (out, c')"
    by (auto split: sum.splits prod.splits)
  from frames_loop_length [OF p] assms(2) have l: "length acc' = n" by simp
  from r have "(case frames_loop cfg cn [] (drop n fs) of
                  Inl e \<Rightarrow> Inl e
                | Inr (rest, c'') \<Rightarrow> Inr (acc' @ rest, c'')) = Inr (out, c')"
    by (simp only: frames_loop_acc [of cfg cn acc'])
  then obtain rest where "out = acc' @ rest" by (auto split: sum.splits prod.splits)
  with l have "take n out = acc'" by simp
  with p r show ?thesis by blast
qed

lemma frames_loop_nth:
  assumes "frames_loop cfg c [] fs = Inr (out, c')" and "i < length fs"
  shows "\<exists>ci ci'. frames_loop cfg c [] (take i fs) = Inr (take i out, ci)
                 \<and> frame_step cfg ci (fs ! i) = Inr (out ! i, ci')"
proof -
  from frames_loop_prefix [OF assms(1), of i] assms(2) obtain ci
    where p: "frames_loop cfg c [] (take i fs) = Inr (take i out, ci)" by auto
  from frames_loop_prefix [OF assms(1), of "Suc i"] assms(2) obtain cj
    where q: "frames_loop cfg c [] (take (Suc i) fs) = Inr (take (Suc i) out, cj)" by auto
  have lo: "length out = length fs" using frames_loop_length [OF assms(1)] by simp
  have "take (Suc i) fs = take i fs @ [fs ! i]"
    using assms(2) by (simp add: take_Suc_conv_app_nth)
  with q have "(case frames_loop cfg c [] (take i fs) of
                  Inl e \<Rightarrow> Inl e
                | Inr (acc', cn) \<Rightarrow> frames_loop cfg cn acc' [fs ! i]) = Inr (take (Suc i) out, cj)"
    by (simp only: frames_loop_append)
  with p have "frames_loop cfg ci (take i out) [fs ! i] = Inr (take (Suc i) out, cj)"
    by simp
  then obtain ascii where s: "frame_step cfg ci (fs ! i) = Inr (ascii, cj)"
    and t: "take i out @ [ascii] = take (Suc i) out"
    by (auto split: sum.splits prod.splits)
  have "take (Suc i) out = take i out @ [out ! i]"
    using assms(2) lo by (simp add: take_Suc_conv_app_nth)
  with t have "ascii = out ! i" by simp
  with p s show ?thesis by blast
qed

lemma frames_loop_no_lookahead:
  assumes "frames_loop cfg c [] fs = Inr (out, c')"
    and "frames_loop cfg c [] gs = Inr (out', c'')"
    and "i < length fs" and "take (Suc i) gs = take (Suc i) fs"
  shows "out' ! i = out ! i"
proof -
  have "length (take (Suc i) gs) = Suc i" using assms(3,4) by simp
  then have ig: "Suc i \<le> length gs" by simp
  from frames_loop_prefix [OF assms(1), of "Suc i"] assms(3) obtain cn
    where a: "frames_loop cfg c [] (take (Suc i) fs) = Inr (take (Suc i) out, cn)" by auto
  from frames_loop_prefix [OF assms(2) ig] obtain cm
    where b: "frames_loop cfg c [] (take (Suc i) gs) = Inr (take (Suc i) out', cm)" by auto
  from a b assms(4) have "take (Suc i) out' = take (Suc i) out" by simp
  then have "take (Suc i) out' ! i = take (Suc i) out ! i" by simp
  then show ?thesis by simp
qed

lemma decode_frames:
  "decodeGifFromBytes sc st g =
     (case frames_loop \<lparr>browser = sc, out_width = width_st st, alpha_threshold = alphaThreshold st,
                        logicalWidth = lsd_width g, logicalHeight = lsd_height g\<rparr>
             (clearRect (createCanvas (lsd_width g) (lsd_height g)) 0 0 (lsd_width g) (lsd_height g))
             [] (decompressed g) of
        Inl e \<Rightarrow> Inl e
      | Inr (asciiFrames, c) \<Rightarrow> Inr (st\<lparr>frames := Some asciiFrames, index := Some 0\<rparr>))"
  by (simp add: decodeGifFromBytes_def Let_def)

text \<open>
  Claim C2. For every list of patch frames, whenever the loop returns a sequence, the
  sequence has one grid for each frame, in the order of the frames: grid \<open>i\<close> is the grid
  of the step on frame \<open>i\<close>, taken on the canvas that frames \<open>0\<close> to \<open>i - 1\<close> left. Grid
  \<open>i\<close> depends on the frames \<open>0\<close> to \<open>i\<close> only: any list that agrees on them gives the same
  grid \<open>i\<close>. The loop returns a sequence for every list of well-formed frames when the sizes
  are in the range of the platform, and for the empty list the sequence is empty.
\<close>

theorem assembler_order_and_length:
  "(\<forall>out c'. frames_loop cfg c [] fs = Inr (out, c') \<longrightarrow>
       length out = length fs
     \<and> (\<forall>i < length fs. \<exists>ci ci'.
            frames_loop cfg c [] (take i fs) = Inr (take i out, ci)
          \<and> frame_step cfg ci (fs ! i) = Inr (out ! i, ci'))
     \<and> (\<forall>i gs out' c''.
            i < length fs \<and> take (Suc i) gs = take (Suc i) fs
            \<and> frames_loop cfg c [] gs = Inr (out', c'')
            \<longrightarrow> out' ! i = out ! i))
   \<and> (render_ok cfg \<and> (\<forall>f \<in> set fs. well_formed_frame f)
        \<longrightarrow> (\<exists>out c'. frames_loop cfg c [] fs = Inr (out, c')))
   \<and> frames_loop cfg c [] [] = Inr ([], c)"
proof -
  have a: "\<forall>out c'. frames_loop cfg c [] fs = Inr (out, c') \<longrightarrow>
       length out = length fs
     \<and> (\<forall>i < length fs. \<exists>ci ci'.
            frames_loop cfg c [] (take i fs) = Inr (take i out, ci)
          \<and> frame_step cfg ci (fs ! i) = Inr (out ! i, ci'))
     \<and> (\<forall>i gs out' c''.
            i < length fs \<and> take (Suc i) gs = take (Suc i) fs
            \<and> frames_loop cfg c [] gs = Inr (out', c'')
            \<longrightarrow> out' ! i = out ! i)"
  proof (intro allI impI)
    fix out c'
    assume r: "frames_loop cfg c [] fs = Inr (out, c')"
    have l: "length out = length fs" using frames_loop_length [OF r] by simp
    have n: "\<forall>i < length fs. \<exists>ci ci'.
            frames_loop cfg c [] (take i fs) = Inr (take i out, ci)
          \<and> frame_step cfg ci (fs ! i) = Inr (out ! i, ci')"
      using frames_loop_nth [OF r] by blast
    have p: "\<forall>i gs out' c''.
            i < length fs \<and> take (Suc i) gs = take (Suc i) fs
            \<and> frames_loop cfg c [] gs = Inr (out', c'')
            \<longrightarrow> out' ! i = out ! i"
      using frames_loop_no_lookahead [OF r] by blast
    from l n p show "length out = length fs
     \<and> (\<forall>i < length fs. \<exists>ci ci'.
            frames_loop cfg c [] (take i fs) = Inr (take i out, ci)
          \<and> frame_step cfg ci (fs ! i) = Inr (out ! i, ci'))
     \<and> (\<forall>i gs out' c''.
            i < length fs \<and> take (Suc i) gs = take (Suc i) fs
            \<and> frames_loop cfg c [] gs = Inr (out', c'')
            \<longrightarrow> out' ! i = out ! i)"
      by (simp only: simp_thms)
  qed
  have b: "render_ok cfg \<and> (\<forall>f \<in> set fs. well_formed_frame f)
        \<longrightarrow> (\<exists>out c'. frames_loop cfg c [] fs = Inr (out, c'))"
    using frames_loop_ok by blast
  have e: "frames_loop cfg c [] [] = Inr ([], c)" by simp
  from a b e show ?thesis by (simp only: simp_thms)
qed

lemma demo_loop_canvas:
  "\<exists>c'. frames_loop demo_config (createCanvas 2 1) [] (decompressed demo_gif)
          = Inr ([[''@ ''], ['' @'']], c')"
proof -
  obtain r where r: "frames_loop demo_config (createCanvas 2 1) [] (decompressed demo_gif) = r"
    by simp
  with demo_loop have "map_sum id fst r = Inr [[''@ ''], ['' @'']]" by simp
  then obtain c' where "r = Inr ([[''@ ''], ['' @'']], c')"
    by (cases r) auto
  with r show ?thesis by simp
qed

theorem assembler_order_and_length_witness:
  "render_ok demo_config
   \<and> list_all well_formed_frame (decompressed demo_gif)
   \<and> map_sum id fst (frames_loop demo_config (createCanvas 2 1) [] (decompressed demo_gif))
       = Inr [[''@ ''], ['' @'']]
   \<and> length [[''@ ''], ['' @'']] = length (decompressed demo_gif)
   \<and> (\<exists>out c'. frames_loop demo_config (createCanvas 2 1) [] (decompressed demo_gif) = Inr (out, c'))
   \<and> (\<exists>ci ci'. frames_loop demo_config (createCanvas 2 1) [] (take 1 (decompressed demo_gif))
                    = Inr (take 1 [[''@ ''], ['' @'']], ci)
                \<and> frame_step demo_config ci (decompressed demo_gif ! 1)
                    = Inr ([[''@ ''], ['' @'']] ! 1, ci'))"
proof -
  have h4: "\<forall>f \<in> set (decompressed demo_gif). well_formed_frame f"
    by (simp add: demo_gif_def well_formed_frame_def black_patch_def)
  then have h4': "list_all well_formed_frame (decompressed demo_gif)"
    by (simp add: list_all_iff)
  note t = assembler_order_and_length [of demo_config "createCanvas 2 1" "decompressed demo_gif"]
  from demo_loop_canvas obtain c'
    where r: "frames_loop demo_config (createCanvas 2 1) [] (decompressed demo_gif)
              = Inr ([[''@ ''], ['' @'']], c')" by blast
  from t r have l: "length [[''@ ''], ['' @'']] = length (decompressed demo_gif)" by blast
  have i1: "1 < length (decompressed demo_gif)" by (simp add: demo_gif_def)
  from t r i1
  have n: "\<exists>ci ci'. frames_loop demo_config (createCanvas 2 1) [] (take 1 (decompressed demo_gif))
                    = Inr (take 1 [[''@ ''], ['' @'']], ci)
                \<and> frame_step demo_config ci (decompressed demo_gif ! 1)
                    = Inr ([[''@ ''], ['' @'']] ! 1, ci')"
    by blast
  from t demo_render_ok h4
  have e: "\<exists>out c'. frames_loop demo_config (createCanvas 2 1) [] (decompressed demo_gif) = Inr (out, c')"
    by blast
  show ?thesis
    by (intro conjI demo_render_ok h4' demo_loop l e n)
qed

lemma applyDisposal_3_eq_2:
  "applyDisposal c (f\<lparr>disposalType := 3\<rparr>) = applyDisposal c (f\<lparr>disposalType := 2\<rparr>)"
  by (simp add: applyDisposal_def)

lemma draw_patch_disposal: "draw_patch pf c (f\<lparr>disposalType := d\<rparr>) = draw_patch pf c f"
  by (simp add: draw_patch_def split: option.splits sum.splits)

lemma frame_step_3_eq_2:
  "frame_step cfg c (f\<lparr>disposalType := 3\<rparr>) = frame_step cfg c (f\<lparr>disposalType := 2\<rparr>)"
  by (simp add: frame_step_def draw_patch_disposal applyDisposal_3_eq_2 split: sum.splits)

lemma frames_loop_3_eq_2:
  "frames_loop cfg c acc (pre @ f\<lparr>disposalType := 3\<rparr> # post)
   = frames_loop cfg c acc (pre @ f\<lparr>disposalType := 2\<rparr> # post)"
  by (simp add: frames_loop_append frame_step_3_eq_2 split: sum.splits prod.splits)

text \<open>
  Claim C6. For every frame and every canvas, disposal method 3 leaves exactly the canvas
  that disposal method 2 leaves, the rectangle of the patch cleared to transparent, and
  therefore the same grids for this frame and all later ones.
\<close>

theorem restoreToPrevious_as_restoreToBackground:
  "applyDisposal c (f\<lparr>disposalType := 3\<rparr>) = applyDisposal c (f\<lparr>disposalType := 2\<rparr>)
   \<and> applyDisposal c (f\<lparr>disposalType := 3\<rparr>)
       = clearRect c (dims_left (dims f)) (dims_top (dims f)) (dims_width (dims f)) (dims_height (dims f))
   \<and> bitmap (applyDisposal c (f\<lparr>disposalType := 3\<rparr>)) p
       = (if on_canvas c p \<and> in_rect (dims_left (dims f)) (dims_top (dims f))
                                   (dims_width (dims f)) (dims_height (dims f)) p
          then transparent else bitmap c p)
   \<and> frame_step cfg c (f\<lparr>disposalType := 3\<rparr>) = frame_step cfg c (f\<lparr>disposalType := 2\<rparr>)
   \<and> frames_loop cfg c acc (pre @ f\<lparr>disposalType := 3\<rparr> # post)
       = frames_loop cfg c acc (pre @ f\<lparr>disposalType := 2\<rparr> # post)
   \<and> decodeGifFromBytes sc st (g\<lparr>decompressed := pre @ f\<lparr>disposalType := 3\<rparr> # post\<rparr>)
       = decodeGifFromBytes sc st (g\<lparr>decompressed := pre @ f\<lparr>disposalType := 2\<rparr> # post\<rparr>)"
proof -
  have a: "applyDisposal c (f\<lparr>disposalType := 3\<rparr>)
       = clearRect c (dims_left (dims f)) (dims_top (dims f)) (dims_width (dims f)) (dims_height (dims f))"
    by (simp add: applyDisposal_def)
  have b: "bitmap (applyDisposal c (f\<lparr>disposalType := 3\<rparr>)) p
       = (if on_canvas c p \<and> in_rect (dims_left (dims f)) (dims_top (dims f))
                                   (dims_width (dims f)) (dims_height (dims f)) p
          then transparent else bitmap c p)"
    by (simp add: a clearRect_def)
  have d: "decodeGifFromBytes sc st (g\<lparr>decompressed := pre @ f\<lparr>disposalType := 3\<rparr> # post\<rparr>)
       = decodeGifFromBytes sc st (g\<lparr>decompressed := pre @ f\<lparr>disposalType := 2\<rparr> # post\<rparr>)"
    by (simp add: decode_frames frames_loop_3_eq_2)
  show ?thesis
    by (intro conjI applyDisposal_3_eq_2 a b frame_step_3_eq_2 frames_loop_3_eq_2 d)
qed

theorem restoreToPrevious_as_restoreToBackground_witness:
  "map_sum id fst (frames_loop demo_config (createCanvas 2 1) []
                     ([] @ (black_patch 0 1)\<lparr>disposalType := 3\<rparr> # [black_patch 1 1]))
     = Inr [[''@ ''], ['' @'']]
   \<and> frames_loop demo_config (createCanvas 2 1) []
        ([] @ (black_patch 0 1)\<lparr>disposalType := 3\<rparr> # [black_patch 1 1])
     = frames_loop demo_config (createCanvas 2 1) []
        ([] @ (black_patch 0 1)\<lparr>disposalType := 2\<rparr> # [black_patch 1 1])"
proof -
  have e: "[] @ (black_patch 0 1)\<lparr>disposalType := 2\<rparr> # [black_patch 1 1] = decompressed demo_gif"
    by (simp add: demo_gif_def black_patch_def)
  have "map_sum id fst (frames_loop demo_config (createCanvas 2 1) []
                     ([] @ (black_patch 0 1)\<lparr>disposalType := 2\<rparr> # [black_patch 1 1]))
     = Inr [[''@ ''], ['' @'']]"
    using demo_loop by (simp only: e)
  with restoreToPrevious_as_restoreToBackground
         [of "createCanvas 2 1" "black_patch 0 1" _ demo_config "[]" "[]" "[black_patch 1 1]"]
  show ?thesis by simp
qed

section \<open>Playback state\<close>

text \<open>
  Claim C7, as amended. Whenever a new sequence is assembled and installed, the playback
  index is set to 0 and the sequence has one grid for each frame; the running flag, the
  rate, the width and the threshold are left as they were.
\<close>

theorem decode_resets_index:
  assumes "decodeGifFromBytes sc st g = Inr st'"
  shows "index st' = Some 0 \<and> playing st' = playing st
         \<and> (\<exists>out. frames st' = Some out \<and> length out = length (decompressed g))
         \<and> fps st' = fps st \<and> width_st st' = width_st st \<and> alphaThreshold st' = alphaThreshold st"
proof -
  define cfg where "cfg = \<lparr>browser = sc, out_width = width_st st, alpha_threshold = alphaThreshold st,
                        logicalWidth = lsd_width g, logicalHeight = lsd_height g\<rparr>"
  define c0 where
    "c0 = clearRect (createCanvas (lsd_width g) (lsd_height g)) 0 0 (lsd_width g) (lsd_height g)"
  from assms have "(case frames_loop cfg c0 [] (decompressed g) of
        Inl e \<Rightarrow> Inl e
      | Inr (asciiFrames, c) \<Rightarrow> Inr (st\<lparr>frames := Some asciiFrames, index := Some 0\<rparr>)) = Inr st'"
    by (simp only: decode_frames cfg_def c0_def)
  then obtain out c where r: "frames_loop cfg c0 [] (decompressed g) = Inr (out, c)"
    and s: "st' = st\<lparr>frames := Some out, index := Some 0\<rparr>"
    by (auto split: sum.splits prod.splits)
  from frames_loop_length [OF r] have "length out = length (decompressed g)" by simp
  with s show ?thesis by simp
qed

theorem decode_resets_index_witness:
  "decodeGifFromBytes copy_scaler demo_playing demo_gif
     = Inr (demo_playing\<lparr>frames := Some [[''@ ''], ['' @'']], index := Some 0\<rparr>)
   \<and> index (demo_playing\<lparr>frames := Some [[''@ ''], ['' @'']], index := Some 0\<rparr>) = Some 0
   \<and> playing (demo_playing\<lparr>frames := Some [[''@ ''], ['' @'']], index := Some 0\<rparr>)
       = playing demo_playing"
  using decode_resets_index [OF demo_decode] demo_decode by simp

text \<open>
  The claim as first stated also said that playback is stopped. A component that is
  playing when a new animation is decoded is still playing afterwards.
\<close>

theorem decode_keeps_playing_counterexample:
  "decodeGifFromBytes copy_scaler demo_playing demo_gif
     = Inr (demo_playing\<lparr>frames := Some [[''@ ''], ['' @'']], index := Some 0\<rparr>)
   \<and> playing demo_playing = True
   \<and> playing (demo_playing\<lparr>frames := Some [[''@ ''], ['' @'']], index := Some 0\<rparr>) \<noteq> False"
  using demo_decode by (simp add: demo_playing_def)

lemma js_rem_nonneg: "0 \<le> a \<Longrightarrow> 0 < b \<Longrightarrow> js_rem a b = Some (a mod b)"
  by (cases "a = 0") (simp_all add: js_rem_def)

text \<open>
  Claim C9. For every sequence of length \<open>N > 0\<close> and every index \<open>i\<close> with
  \<open>0 \<le> i < N\<close>: the tick of the running clock and the button for the next frame replace
  \<open>i\<close> by \<open>(i + 1) mod N\<close>, the button for the previous frame replaces it by
  \<open>(i - 1 + N) mod N\<close>, which is \<open>N - 1\<close> for \<open>i = 0\<close>; the buttons do so whether the clock
  runs or not. The new index is again in \<open>[0, N)\<close> and the sequence is unchanged.
\<close>

theorem playback_index_invariant:
  assumes "frames st = Some fs" and "fs \<noteq> []" and "index st = Some i"
    and "0 \<le> i" and "i < int (length fs)"
  shows "(playing st \<longrightarrow> index (timer_tick st) = Some ((i + 1) mod int (length fs)))
         \<and> index (onClick_next st) = Some ((i + 1) mod int (length fs))
         \<and> index (onClick_prev st) = Some ((i - 1 + int (length fs)) mod int (length fs))
         \<and> (i = 0 \<longrightarrow> index (onClick_prev st) = Some (int (length fs) - 1))
         \<and> 0 \<le> (i + 1) mod int (length fs) \<and> (i + 1) mod int (length fs) < int (length fs)
         \<and> 0 \<le> (i - 1 + int (length fs)) mod int (length fs)
         \<and> (i - 1 + int (length fs)) mod int (length fs) < int (length fs)
         \<and> frames (timer_tick st) = Some fs \<and> frames (onClick_next st) = Some fs
         \<and> frames (onClick_prev st) = Some fs"
proof -
  define N where "N = int (length fs)"
  have N: "0 < N" using assms(2) by (simp add: N_def)
  have a: "advance fs (Some i) = Some ((i + 1) mod N)"
    using assms(4) N by (simp add: advance_def js_rem_nonneg N_def)
  have p: "js_rem (i - 1 + N) N = Some ((i - 1 + N) mod N)"
    using assms(4) N by (intro js_rem_nonneg) simp_all
  have t: "playing st \<longrightarrow> index (timer_tick st) = Some ((i + 1) mod N)"
    using assms(1,3) a by (simp add: timer_tick_def)
  have n: "index (onClick_next st) = Some ((i + 1) mod N)"
    using assms(1,3) a by (simp add: onClick_next_def)
  have pv: "index (onClick_prev st) = Some ((i - 1 + N) mod N)"
    using assms(1,3) p by (simp add: onClick_prev_def N_def)
  have z: "i = 0 \<longrightarrow> index (onClick_prev st) = Some (N - 1)"
  proof
    assume i0: "i = 0"
    have "(N - 1) mod N = N - 1" using N by (intro mod_pos_pos_trivial) simp_all
    moreover have "i - 1 + N = N - 1" using i0 by simp
    ultimately show "index (onClick_prev st) = Some (N - 1)" using pv by (simp only:)
  qed
  have f: "frames (timer_tick st) = Some fs" "frames (onClick_next st) = Some fs"
          "frames (onClick_prev st) = Some fs"
    using assms(1) by (simp_all add: timer_tick_def onClick_next_def onClick_prev_def)
  from t n pv z f N show ?thesis unfolding N_def [symmetric] by simp
qed

theorem playback_index_invariant_witness:
  "frames (demo_playing\<lparr>frames := Some [[''@ ''], ['' @'']], index := Some 0\<rparr>)
     = Some [[''@ ''], ['' @'']]
   \<and> index (onClick_prev (demo_playing\<lparr>frames := Some [[''@ ''], ['' @'']], index := Some 0\<rparr>))
       = Some 1
   \<and> index (onClick_next (demo_playing\<lparr>frames := Some [[''@ ''], ['' @'']], index := Some 0\<rparr>))
       = Some 1
   \<and> index (timer_tick (demo_playing\<lparr>frames := Some [[''@ ''], ['' @'']], index := Some 0\<rparr>))
       = Some 1
   \<and> index (onClick_next (onClick_next
               (demo_playing\<lparr>frames := Some [[''@ ''], ['' @'']], index := Some 0\<rparr>)))
       = Some 0"
proof -
  define s0 where "s0 = demo_playing\<lparr>frames := Some [[''@ ''], ['' @'']], index := Some 0\<rparr>"
  have f0: "frames s0 = Some [[''@ ''], ['' @'']]" and i0: "index s0 = Some 0"
    and p0: "playing s0"
    by (simp_all add: s0_def demo_playing_def)
  have ne: "[[''@ ''], ['' @'']] \<noteq> []" by simp
  from playback_index_invariant [OF f0 ne i0]
  have a: "index (timer_tick s0) = Some 1" "index (onClick_next s0) = Some 1"
    "index (onClick_prev s0) = Some 1" "frames (onClick_next s0) = Some [[''@ ''], ['' @'']]"
    using p0 by simp_all
  from playback_index_invariant [OF a(4) ne a(2)]
  have b: "index (onClick_next (onClick_next s0)) = Some 0" by simp
  from f0 a b show ?thesis unfolding s0_def by simp
qed

end
